theory Spec2Isabelle
  imports Main "HOL-Library.Word"
begin

unbundle bit_operations_syntax

section \<open>Python values used by the driver\<close>

text \<open>
  The driver (\<^verbatim>\<open>src/pico/ssd1309.py\<close>) runs under MicroPython. Its integers are
  unbounded (\<^typ>\<open>int\<close>); the elements of a \<^verbatim>\<open>bytearray\<close> are bytes. Every
  exception the modelled code can raise is a value of \<open>error\<close>.
\<close>

type_synonym byte = "8 word"

datatype error = IndexError | TypeError | ValueError

text \<open>\<^verbatim>\<open>range(n)\<close>: the integers \<open>0 .. n - 1\<close>, empty when \<open>n \<le> 0\<close>.\<close>

definition range :: "int \<Rightarrow> int list" where
  "range n = [0 .. n - 1]"

text \<open>A \<^verbatim>\<open>for\<close> loop whose body may raise: the first exception ends the loop.\<close>

fun for_each :: "('a \<Rightarrow> 's \<Rightarrow> error + 's) \<Rightarrow> 'a list \<Rightarrow> 's \<Rightarrow> error + 's" where
  "for_each body [] s = Inr s"
| "for_each body (x # xs) s =
     (case body x s of Inl e \<Rightarrow> Inl e | Inr s' \<Rightarrow> for_each body xs s')"

text \<open>\<^verbatim>\<open>bytearray(n)\<close>: \<open>n\<close> zero bytes; a negative count raises.\<close>

definition bytearray :: "int \<Rightarrow> error + byte list" where
  "bytearray n = (if n < 0 then Inl ValueError else Inr (replicate (nat n) 0))"

text \<open>
  Subscription \<^verbatim>\<open>buf[i]\<close>: a negative index counts from the end, an index outside
  the buffer raises \<^verbatim>\<open>IndexError\<close>.
\<close>

definition norm_index :: "byte list \<Rightarrow> int \<Rightarrow> error + nat" where
  "norm_index buf i =
     (let n = int (length buf); j = (if i < 0 then n + i else i)
      in if 0 \<le> j \<and> j < n then Inr (nat j) else Inl IndexError)"

definition getitem :: "byte list \<Rightarrow> int \<Rightarrow> error + byte" where
  "getitem buf i = (case norm_index buf i of Inl e \<Rightarrow> Inl e | Inr j \<Rightarrow> Inr (buf ! j))"

definition setitem :: "byte list \<Rightarrow> int \<Rightarrow> byte \<Rightarrow> error + byte list" where
  "setitem buf i v = (case norm_index buf i of Inl e \<Rightarrow> Inl e | Inr j \<Rightarrow> Inr (buf[j := v]))"

section \<open>Bitmap transformations\<close>

text \<open>\<^verbatim>\<open>get_byte_size(width)\<close> is \<^verbatim>\<open>((width - 1) >> 3) + 1\<close>.\<close>

definition get_byte_size :: "int \<Rightarrow> int" where
  "get_byte_size width = drop_bit 3 (width - 1) + 1"

text \<open>
  The statement pair that every transformation repeats:
  \<^verbatim>\<open>val_bit = ((buf[src_idx] >> src_bit) & 1) << dst_bit; buf2[dst_idx] |= val_bit\<close>.
  The bit positions are \<^verbatim>\<open>x & 7\<close>, so the shifted bit stays inside the byte.
\<close>

definition or_bit :: "byte list \<Rightarrow> int \<Rightarrow> int \<Rightarrow> int \<Rightarrow> int \<Rightarrow> byte list \<Rightarrow> error + byte list" where
  "or_bit buf src_idx src_bit dst_idx dst_bit buf2 =
     (case getitem buf src_idx of
        Inl e \<Rightarrow> Inl e
      | Inr b \<Rightarrow>
          (let val_bit = push_bit (nat dst_bit) (drop_bit (nat src_bit) b AND 1)
           in case getitem buf2 dst_idx of
                Inl e \<Rightarrow> Inl e
              | Inr old \<Rightarrow> setitem buf2 dst_idx (old OR val_bit)))"

text \<open>The inner loop of the 180 degree branch: the bits of one byte in reverse order.\<close>

definition reverse_bits :: "byte \<Rightarrow> byte" where
  "reverse_bits cur_byte =
     fst (fold (\<lambda>i (new_byte, cur). (push_bit 1 new_byte OR (cur AND 1), drop_bit 1 cur))
            (range 8) (0, cur_byte))"

definition rotate180 :: "byte list \<Rightarrow> byte list" where
  "rotate180 buf = rev (map reverse_bits buf)"

definition rotate90 :: "byte list \<Rightarrow> int \<Rightarrow> int \<Rightarrow> error + byte list" where
  "rotate90 buf w h =
     (let w_bytes = get_byte_size w; h_bytes = get_byte_size h
      in case bytearray (h_bytes * w) of
           Inl e \<Rightarrow> Inl e
         | Inr buf2 \<Rightarrow>
             for_each (\<lambda>y1. for_each (\<lambda>x1.
                 let y2 = x1; x2 = (h - 1) - y1;
                     src_idx = (y1 * w_bytes) + drop_bit 3 x1; src_bit = x1 AND 7;
                     dst_idx = (y2 * h_bytes) + drop_bit 3 x2; dst_bit = x2 AND 7
                 in or_bit buf src_idx src_bit dst_idx dst_bit) (range w)) (range h) buf2)"

definition rotate270 :: "byte list \<Rightarrow> int \<Rightarrow> int \<Rightarrow> error + byte list" where
  "rotate270 buf w h =
     (let w_bytes = get_byte_size w; h_bytes = get_byte_size h
      in case bytearray (h_bytes * w) of
           Inl e \<Rightarrow> Inl e
         | Inr buf2 \<Rightarrow>
             for_each (\<lambda>y1. for_each (\<lambda>x1.
                 let y2 = (w - 1) - x1; x2 = y1;
                     src_idx = (y1 * w_bytes) + drop_bit 3 x1; src_bit = x1 AND 7;
                     dst_idx = (y2 * h_bytes) + drop_bit 3 x2; dst_bit = x2 AND 7
                 in or_bit buf src_idx src_bit dst_idx dst_bit) (range w)) (range h) buf2)"

text \<open>
  \<^verbatim>\<open>Display.xform_buf(buf, w, h, invert, rotate)\<close> returns the transformed buffer with
  its new width and height (\<open>rot\<close> is the argument \<^verbatim>\<open>rotate\<close>). The inversion
  is done on the argument itself; the model returns the buffer the function returns.
\<close>

definition xform_buf :: "byte list \<Rightarrow> int \<Rightarrow> int \<Rightarrow> bool \<Rightarrow> int \<Rightarrow> error + (byte list \<times> int \<times> int)" where
  "xform_buf buf0 w h invert rot =
     (let buf = (if invert then map (\<lambda>b. b XOR 0xFF) buf0 else buf0)
      in if rot = 180 then Inr (rotate180 buf, w, h)
         else if rot = 90 then
           (case rotate90 buf w h of Inl e \<Rightarrow> Inl e | Inr buf2 \<Rightarrow> Inr (buf2, h, w))
         else if rot = 270 then
           (case rotate270 buf w h of Inl e \<Rightarrow> Inl e | Inr buf2 \<Rightarrow> Inr (buf2, h, w))
         else Inr (buf, w, h))"

text \<open>\<^verbatim>\<open>Display.mirror_horizontal(buf, w, h)\<close>.\<close>

definition mirror_horizontal :: "byte list \<Rightarrow> int \<Rightarrow> int \<Rightarrow> error + byte list" where
  "mirror_horizontal buf w h =
     (let w_bytes = get_byte_size w
      in case bytearray (w_bytes * h) of
           Inl e \<Rightarrow> Inl e
         | Inr buf2 \<Rightarrow>
             for_each (\<lambda>y1. for_each (\<lambda>x1 b2.
                 let x2 = (w - 1) - x1; y2 = y1;
                     src_idx = (y1 * w_bytes) + drop_bit 3 x1; src_bit = x1 AND 7;
                     dst_idx = (y2 * w_bytes) + drop_bit 3 x2; dst_bit = x2 AND 7
                 in case or_bit buf src_idx src_bit dst_idx dst_bit b2 of
                      Inl e \<Rightarrow> Inl e
                    | Inr b3 \<Rightarrow> or_bit buf dst_idx dst_bit src_idx src_bit b3)
               (range (w div 2))) (range h) buf2)"

text \<open>\<^verbatim>\<open>Display.buf_hmsb_to_vlsb(buf, w, h)\<close>: row-major to page-major packing.\<close>

definition buf_hmsb_to_vlsb :: "byte list \<Rightarrow> int \<Rightarrow> int \<Rightarrow> error + byte list" where
  "buf_hmsb_to_vlsb buf w h =
     (let w_bytes = get_byte_size w; h_bytes = get_byte_size h
      in case bytearray (h_bytes * w) of
           Inl e \<Rightarrow> Inl e
         | Inr buf2 \<Rightarrow>
             for_each (\<lambda>y1.
                 let page = drop_bit 3 y1
                 in for_each (\<lambda>x1.
                      let src_idx = (y1 * w_bytes) + drop_bit 3 x1; src_bit = x1 AND 7;
                          dst_idx = (page * w) + x1; dst_bit = y1 AND 7
                      in or_bit buf src_idx src_bit dst_idx dst_bit) (range w)) (range h) buf2)"

section \<open>The display and its frame buffer\<close>

text \<open>
  \<^verbatim>\<open>print\<close> writes to the console; the four messages of \<^verbatim>\<open>is_off_grid\<close> are kept
  with the numbers they are formatted with.
\<close>

datatype message =
    XBelowMinimum int
  | YBelowMinimum int
  | XAboveMaximum int int
  | YAboveMaximum int int

text \<open>
  The state of a \<^verbatim>\<open>Display\<close>: its fields, the console, and the sequence of
  \<^verbatim>\<open>i2c.writeto(address, bytes)\<close> calls made so far. \<^verbatim>\<open>monoFB\<close> is a \<^verbatim>\<open>FrameBuffer\<close>
  of MicroPython's \<^verbatim>\<open>framebuf\<close> module; \<open>pixels\<close> is the set of its lit pixels.
\<close>

record display =
  address :: int
  width :: int
  height :: int
  pixels :: "(int \<times> int) set"
  console :: "message list"
  i2c :: "(int \<times> byte list) list"

definition print :: "display \<Rightarrow> message \<Rightarrow> display" where
  "print d m = d\<lparr>console := console d @ [m]\<rparr>"

text \<open>
  The methods of \<^verbatim>\<open>framebuf.FrameBuffer\<close> the modelled primitives call. The module is
  MicroPython's, not the driver's: \<^verbatim>\<open>pixel\<close> ignores a coordinate outside the buffer,
  \<^verbatim>\<open>fill_rect\<close> clips the rectangle to the buffer, \<^verbatim>\<open>hline\<close> and \<^verbatim>\<open>vline\<close> are
  rectangles one pixel thick, and \<^verbatim>\<open>rect\<close> is the four edges. A colour other than 0
  lights a pixel.
\<close>

definition fb_pixel :: "display \<Rightarrow> int \<Rightarrow> int \<Rightarrow> int \<Rightarrow> display" where
  "fb_pixel d x y c =
     (if 0 \<le> x \<and> x < width d \<and> 0 \<le> y \<and> y < height d
      then d\<lparr>pixels := (if c \<noteq> 0 then insert (x, y) (pixels d) else pixels d - {(x, y)})\<rparr>
      else d)"

definition fb_fill_rect :: "display \<Rightarrow> int \<Rightarrow> int \<Rightarrow> int \<Rightarrow> int \<Rightarrow> int \<Rightarrow> display" where
  "fb_fill_rect d x y w h c =
     (let area = {max x 0 ..< min (width d) (x + w)} \<times> {max y 0 ..< min (height d) (y + h)}
      in d\<lparr>pixels := (if c \<noteq> 0 then pixels d \<union> area else pixels d - area)\<rparr>)"

definition fb_hline :: "display \<Rightarrow> int \<Rightarrow> int \<Rightarrow> int \<Rightarrow> int \<Rightarrow> display" where
  "fb_hline d x y w c = fb_fill_rect d x y w 1 c"

definition fb_vline :: "display \<Rightarrow> int \<Rightarrow> int \<Rightarrow> int \<Rightarrow> int \<Rightarrow> display" where
  "fb_vline d x y h c = fb_fill_rect d x y 1 h c"

definition fb_rect :: "display \<Rightarrow> int \<Rightarrow> int \<Rightarrow> int \<Rightarrow> int \<Rightarrow> int \<Rightarrow> display" where
  "fb_rect d x y w h c =
     fb_fill_rect (fb_fill_rect (fb_fill_rect (fb_fill_rect d x y w 1 c)
       x (y + h - 1) w 1 c) x y 1 h c) (x + w - 1) y 1 h c"

text \<open>\<^verbatim>\<open>int(invert ^ 1)\<close>: the colour a primitive draws with.\<close>

definition colour :: "bool \<Rightarrow> int" where
  "colour invert = (if invert then 0 else 1)"

text \<open>\<^verbatim>\<open>Display.is_off_grid(xmin, ymin, xmax, ymax)\<close>: the answer and the display after the message.\<close>

definition is_off_grid :: "display \<Rightarrow> int \<Rightarrow> int \<Rightarrow> int \<Rightarrow> int \<Rightarrow> display \<times> bool" where
  "is_off_grid d xmin ymin xmax ymax =
     (if xmin < 0 then (print d (XBelowMinimum xmin), True)
      else if ymin < 0 then (print d (YBelowMinimum ymin), True)
      else if xmax \<ge> width d then (print d (XAboveMaximum xmax (width d - 1)), True)
      else if ymax \<ge> height d then (print d (YAboveMaximum ymax (height d - 1)), True)
      else (d, False))"

section \<open>Drawing primitives\<close>

definition draw_pixel :: "display \<Rightarrow> int \<Rightarrow> int \<Rightarrow> bool \<Rightarrow> display" where
  "draw_pixel d x y invert =
     (case is_off_grid d x y x y of
        (d', True) \<Rightarrow> d'
      | (d', False) \<Rightarrow> fb_pixel d' x y (colour invert))"

definition draw_hline :: "display \<Rightarrow> int \<Rightarrow> int \<Rightarrow> int \<Rightarrow> bool \<Rightarrow> display" where
  "draw_hline d x y w invert =
     (case is_off_grid d x y (x + w - 1) y of
        (d', True) \<Rightarrow> d'
      | (d', False) \<Rightarrow> fb_hline d' x y w (colour invert))"

definition draw_vline :: "display \<Rightarrow> int \<Rightarrow> int \<Rightarrow> int \<Rightarrow> bool \<Rightarrow> display" where
  "draw_vline d x y h invert =
     (case is_off_grid d x y x (y + h) of
        (d', True) \<Rightarrow> d'
      | (d', False) \<Rightarrow> fb_vline d' x y h (colour invert))"

definition draw_rectangle :: "display \<Rightarrow> int \<Rightarrow> int \<Rightarrow> int \<Rightarrow> int \<Rightarrow> bool \<Rightarrow> display" where
  "draw_rectangle d x y w h invert = fb_rect d x y w h (colour invert)"

definition fill_rectangle :: "display \<Rightarrow> int \<Rightarrow> int \<Rightarrow> int \<Rightarrow> int \<Rightarrow> bool \<Rightarrow> display" where
  "fill_rectangle d x y w h invert =
     (case is_off_grid d x y (x + w - 1) (y + h - 1) of
        (d', True) \<Rightarrow> d'
      | (d', False) \<Rightarrow> fb_fill_rect d' x y w h (colour invert))"

text \<open>
  The \<^verbatim>\<open>while x < y\<close> loop of \<^verbatim>\<open>draw_circle\<close>, with the loop variables as arguments.
\<close>

function circle_loop :: "display \<Rightarrow> int \<Rightarrow> int \<Rightarrow> bool \<Rightarrow> int \<Rightarrow> int \<Rightarrow> int \<Rightarrow> int \<Rightarrow> int \<Rightarrow> display" where
  "circle_loop d x0 y0 invert f dx dy x y =
     (if x < y then
        (let (y1, dy1, f1) = (if f \<ge> 0 then (y - 1, dy + 2, f + (dy + 2)) else (y, dy, f));
             x1 = x + 1; dx1 = dx + 2; f2 = f1 + dx1;
             d1 = draw_pixel d (x0 + x1) (y0 + y1) invert;
             d2 = draw_pixel d1 (x0 - x1) (y0 + y1) invert;
             d3 = draw_pixel d2 (x0 + x1) (y0 - y1) invert;
             d4 = draw_pixel d3 (x0 - x1) (y0 - y1) invert;
             d5 = draw_pixel d4 (x0 + y1) (y0 + x1) invert;
             d6 = draw_pixel d5 (x0 - y1) (y0 + x1) invert;
             d7 = draw_pixel d6 (x0 + y1) (y0 - x1) invert;
             d8 = draw_pixel d7 (x0 - y1) (y0 - x1) invert
         in circle_loop d8 x0 y0 invert f2 dx1 dy1 x1 y1)
      else d)"
  by pat_completeness auto
termination
  by (relation "measure (\<lambda>(d, x0, y0, invert, f, dx, dy, x, y). nat (y - x))")
     (auto split: if_splits)

definition draw_circle :: "display \<Rightarrow> int \<Rightarrow> int \<Rightarrow> int \<Rightarrow> bool \<Rightarrow> display" where
  "draw_circle d x0 y0 r invert =
     (let f = 1 - r; dx = 1; dy = - r - r; x = 0; y = r;
          d1 = draw_pixel d x0 (y0 + r) invert;
          d2 = draw_pixel d1 x0 (y0 - r) invert;
          d3 = draw_pixel d2 (x0 + r) y0 invert;
          d4 = draw_pixel d3 (x0 - r) y0 invert
      in circle_loop d4 x0 y0 invert f dx dy x y)"

text \<open>The loop of \<^verbatim>\<open>fill_circle\<close>: four vertical spans for each step.\<close>

function fill_circle_loop :: "display \<Rightarrow> int \<Rightarrow> int \<Rightarrow> bool \<Rightarrow> int \<Rightarrow> int \<Rightarrow> int \<Rightarrow> int \<Rightarrow> int \<Rightarrow> display" where
  "fill_circle_loop d x0 y0 invert f dx dy x y =
     (if x < y then
        (let (y1, dy1, f1) = (if f \<ge> 0 then (y - 1, dy + 2, f + (dy + 2)) else (y, dy, f));
             x1 = x + 1; dx1 = dx + 2; f2 = f1 + dx1;
             d1 = draw_vline d (x0 + x1) (y0 - y1) (2 * y1 + 1) invert;
             d2 = draw_vline d1 (x0 - x1) (y0 - y1) (2 * y1 + 1) invert;
             d3 = draw_vline d2 (x0 - y1) (y0 - x1) (2 * x1 + 1) invert;
             d4 = draw_vline d3 (x0 + y1) (y0 - x1) (2 * x1 + 1) invert
         in fill_circle_loop d4 x0 y0 invert f2 dx1 dy1 x1 y1)
      else d)"
  by pat_completeness auto
termination
  by (relation "measure (\<lambda>(d, x0, y0, invert, f, dx, dy, x, y). nat (y - x))")
     (auto split: if_splits)

definition fill_circle :: "display \<Rightarrow> int \<Rightarrow> int \<Rightarrow> int \<Rightarrow> bool \<Rightarrow> display" where
  "fill_circle d x0 y0 r invert =
     (let f = 1 - r; dx = 1; dy = - r - r; x = 0; y = r;
          d1 = draw_vline d x0 (y0 - r) (2 * r + 1) invert
      in fill_circle_loop d1 x0 y0 invert f dx dy x y)"

section \<open>The wire protocol\<close>

text \<open>
  What \<^verbatim>\<open>write_data\<close> can be handed: a \<^verbatim>\<open>bytearray\<close>, an integer, or the tuple
  \<^verbatim>\<open>*args\<close> of \<^verbatim>\<open>write_cmd\<close>.
\<close>

datatype pyobj = PyBytearray "byte list" | PyInt int | PyTuple "int list"

text \<open>
  \<^verbatim>\<open>i2c.writeto(self.address, payload)\<close> appends one write to the bus. An element of
  a \<^verbatim>\<open>bytearray\<close> built from integers keeps the low eight bits of the integer.
\<close>

definition writeto :: "display \<Rightarrow> byte list \<Rightarrow> display" where
  "writeto d payload = d\<lparr>i2c := i2c d @ [(address d, payload)]\<rparr>"

text \<open>
  A method that may raise after it has written to the bus returns the display together
  with the exception, \<open>None\<close> when it returned normally.
\<close>

definition and_then :: "display \<times> error option \<Rightarrow> (display \<Rightarrow> display \<times> error option) \<Rightarrow> display \<times> error option" where
  "and_then r k = (case r of (d, Some e) \<Rightarrow> (d, Some e) | (d, None) \<Rightarrow> k d)"

text \<open>
  \<^verbatim>\<open>Display.write_data(data)\<close>. \<^verbatim>\<open>bytearray([0x40, data])\<close> raises \<^verbatim>\<open>TypeError\<close> when
  \<^verbatim>\<open>data\<close> is a tuple, before anything is written.
\<close>

definition write_data :: "display \<Rightarrow> pyobj \<Rightarrow> display \<times> error option" where
  "write_data d data =
     (case data of
        PyBytearray bs \<Rightarrow> (writeto d (0x40 # bs), None)
      | PyInt n \<Rightarrow> (writeto d [0x40, word_of_int n], None)
      | PyTuple xs \<Rightarrow> (d, Some TypeError))"

text \<open>\<^verbatim>\<open>Display.write_cmd(command, *args)\<close>.\<close>

definition write_cmd :: "display \<Rightarrow> int \<Rightarrow> int list \<Rightarrow> display \<times> error option" where
  "write_cmd d command args =
     (let d1 = writeto d [0x80, word_of_int command]
      in if length args > 0 then write_data d1 (PyTuple args) else (d1, None))"

definition COLUMN_ADDRESS :: int where "COLUMN_ADDRESS = 0x21"
definition PAGE_ADDRESS :: int where "PAGE_ADDRESS = 0x22"

text \<open>\<^verbatim>\<open>Display.present_buf(buf, w, h)\<close>.\<close>

definition present_buf :: "display \<Rightarrow> byte list \<Rightarrow> int \<Rightarrow> int \<Rightarrow> display \<times> error option" where
  "present_buf d buf w h =
     (let column_beg = 0; column_end = w - 1;
          (column_beg, column_end) =
             (if w = 64 then (column_beg + 32, column_end + 32) else (column_beg, column_end));
          pages_beg = 0; pages_end = drop_bit 3 h - 1
      in and_then (write_cmd d COLUMN_ADDRESS []) (\<lambda>d.
         and_then (write_cmd d column_beg []) (\<lambda>d.
         and_then (write_cmd d column_end []) (\<lambda>d.
         and_then (write_cmd d PAGE_ADDRESS []) (\<lambda>d.
         and_then (write_cmd d pages_beg []) (\<lambda>d.
         and_then (write_cmd d pages_end []) (\<lambda>d.
         write_data d (PyBytearray buf))))))))"

text \<open>
  \<^verbatim>\<open>mono_image\<close> is the bytearray behind \<^verbatim>\<open>monoFB\<close>, of
  \<^verbatim>\<open>buffer_length = byte_width * height\<close> bytes with \<^verbatim>\<open>byte_width = -(-width // 8)\<close>,
  in the \<^verbatim>\<open>MONO_VLSB\<close> layout: bit \<open>b\<close> of byte \<open>i\<close> is the pixel in column
  \<open>i mod width\<close> and row \<open>8 * (i div width) + b\<close>.
\<close>

definition mono_image :: "display \<Rightarrow> byte list" where
  "mono_image d =
     map (\<lambda>i. fold (\<lambda>b acc. if (int i mod width d, 8 * (int i div width d) + int b) \<in> pixels d
                               then acc OR push_bit b 1 else acc) [0 ..< 8] 0)
       [0 ..< nat (- (- width d div 8) * height d)]"

text \<open>\<^verbatim>\<open>Display.present()\<close>.\<close>

definition present :: "display \<Rightarrow> display \<times> error option" where
  "present d = present_buf d (mono_image d) (width d) (height d)"

text \<open>
  The \<^verbatim>\<open>for cmd in (...): self.write_cmd(cmd)\<close> loop of the constructor, for any
  sequence of command bytes: one call without arguments for each byte.
\<close>

fun write_cmds :: "display \<Rightarrow> int list \<Rightarrow> display \<times> error option" where
  "write_cmds d [] = (d, None)"
| "write_cmds d (cmd # cmds) = and_then (write_cmd d cmd []) (\<lambda>d'. write_cmds d' cmds)"

section \<open>Notions used in the statements and proofs\<close>

text \<open>
  The pixel \<open>(x, y)\<close> of a row-major bitmap of width \<open>w\<close>: bit \<^verbatim>\<open>x & 7\<close> of the byte
  at \<^verbatim>\<open>y * get_byte_size(w) + (x >> 3)\<close>, as every transformation reads its source.
\<close>

definition pixel_hmsb :: "byte list \<Rightarrow> int \<Rightarrow> int \<Rightarrow> int \<Rightarrow> bool" where
  "pixel_hmsb buf w x y = bit (buf ! nat (y * get_byte_size w + drop_bit 3 x)) (nat (x AND 7))"

text \<open>
  A row-major bitmap of width \<open>w\<close> and height \<open>h\<close> with clear padding: it has
  \<open>get_byte_size w * h\<close> bytes, and a bit that is set belongs to a column below \<open>w\<close>.
\<close>

definition wf_bitmap :: "byte list \<Rightarrow> int \<Rightarrow> int \<Rightarrow> bool" where
  "wf_bitmap buf w h \<longleftrightarrow>
     int (length buf) = get_byte_size w * h \<and>
     (\<forall>i<length buf. \<forall>k<8. bit (buf ! i) k \<longrightarrow> (int i mod get_byte_size w) * 8 + int k < w)"

text \<open>
  What a loop of \<^const>\<open>or_bit\<close> steps does to a destination of \<open>n\<close> bytes: it
  returns normally, and a bit of the result is set when it was set before or when one of
  the steps \<open>(src_idx, src_bit, dst_idx, dst_bit)\<close> in \<open>its\<close> copies a set bit onto it.
\<close>

definition scatters :: "nat \<Rightarrow> byte list \<Rightarrow> (byte list \<Rightarrow> error + byte list) \<Rightarrow> (nat \<times> nat \<times> nat \<times> nat) set \<Rightarrow> bool" where
  "scatters n buf f its \<longleftrightarrow>
     (\<forall>s. length s = n \<longrightarrow>
        (\<exists>s'. f s = Inr s' \<and> length s' = n \<and>
           (\<forall>i<n. \<forall>k. bit (s' ! i) k \<longleftrightarrow>
               bit (s ! i) k \<or> (\<exists>it\<in>its. fst (snd (snd it)) = i \<and> snd (snd (snd it)) = k \<and> bit (buf ! fst it) (fst (snd it))))))"

text \<open>The eight pixels one step of the circle loop plots around \<open>(x0, y0)\<close>.\<close>

definition octant_points :: "int \<Rightarrow> int \<Rightarrow> int \<Rightarrow> int \<Rightarrow> (int \<times> int) set" where
  "octant_points x0 y0 a b =
     {(x0 + a, y0 + b), (x0 - a, y0 + b), (x0 + a, y0 - b), (x0 - a, y0 - b),
      (x0 + b, y0 + a), (x0 - b, y0 + a), (x0 + b, y0 - a), (x0 - b, y0 - a)}"

text \<open>
  A set of pixels closed under the reflections about \<open>(x0, y0)\<close> that negate the
  x-offset, negate the y-offset and swap the two offsets; they generate all eight.
\<close>

definition symmetric8 :: "int \<Rightarrow> int \<Rightarrow> (int \<times> int) set \<Rightarrow> bool" where
  "symmetric8 x0 y0 P \<longleftrightarrow>
     (\<forall>a b. (x0 + a, y0 + b) \<in> P \<longrightarrow>
        (x0 - a, y0 + b) \<in> P \<and> (x0 + a, y0 - b) \<in> P \<and> (x0 + b, y0 + a) \<in> P)"

section \<open>Zero dimensions\<close>

lemma range_nonpos: "n \<le> 0 \<Longrightarrow> range n = []"
  by (simp add: range_def)

lemma for_each_inner_Nil: "for_each (\<lambda>y s. Inr s) ys s = Inr s"
  by (induction ys) simp_all

lemma get_byte_size_0: "get_byte_size 0 = 0"
  by (simp add: get_byte_size_def drop_bit_eq_div)

lemma get_byte_size_nonneg: "0 \<le> w \<Longrightarrow> 0 \<le> get_byte_size w"
  by (simp add: get_byte_size_def drop_bit_eq_div)

lemma bytearray_0: "bytearray 0 = Inr []"
  by (simp add: bytearray_def)

lemma rotate90_zero:
  assumes "w = 0 \<or> h = 0" "0 \<le> w" "0 \<le> h"
  shows "rotate90 buf w h = Inr []"
proof (cases "w = 0")
  case True
  have "for_each (\<lambda>y1. for_each (body y1) []) ys s = Inr s" for body :: "int \<Rightarrow> int \<Rightarrow> byte list \<Rightarrow> error + byte list" and ys s
    by (induction ys) simp_all
  then show ?thesis using True
    by (simp add: rotate90_def Let_def bytearray_0 range_nonpos)
next
  case False
  then have "h = 0" using assms by simp
  then show ?thesis
    by (simp add: rotate90_def Let_def get_byte_size_0 bytearray_0 range_nonpos)
qed

lemma rotate270_zero:
  assumes "w = 0 \<or> h = 0" "0 \<le> w" "0 \<le> h"
  shows "rotate270 buf w h = Inr []"
proof (cases "w = 0")
  case True
  have "for_each (\<lambda>y1. for_each (body y1) []) ys s = Inr s" for body :: "int \<Rightarrow> int \<Rightarrow> byte list \<Rightarrow> error + byte list" and ys s
    by (induction ys) simp_all
  then show ?thesis using True
    by (simp add: rotate270_def Let_def bytearray_0 range_nonpos)
next
  case False
  then have "h = 0" using assms by simp
  then show ?thesis
    by (simp add: rotate270_def Let_def get_byte_size_0 bytearray_0 range_nonpos)
qed

lemma mirror_horizontal_zero:
  assumes "w = 0 \<or> h = 0" "0 \<le> w" "0 \<le> h"
  shows "mirror_horizontal buf w h = Inr []"
proof (cases "w = 0")
  case True
  have "for_each (\<lambda>y1. for_each (body y1) []) ys s = Inr s" for body :: "int \<Rightarrow> int \<Rightarrow> byte list \<Rightarrow> error + byte list" and ys s
    by (induction ys) simp_all
  then show ?thesis using True
    by (simp add: mirror_horizontal_def Let_def get_byte_size_0 bytearray_0 range_nonpos)
next
  case False
  then have "h = 0" using assms by simp
  then show ?thesis
    by (simp add: mirror_horizontal_def Let_def bytearray_0 range_nonpos)
qed

lemma buf_hmsb_to_vlsb_zero:
  assumes "w = 0 \<or> h = 0" "0 \<le> w" "0 \<le> h"
  shows "buf_hmsb_to_vlsb buf w h = Inr []"
proof (cases "w = 0")
  case True
  have "for_each (\<lambda>y1. for_each (body y1) []) ys s = Inr s" for body :: "int \<Rightarrow> int \<Rightarrow> byte list \<Rightarrow> error + byte list" and ys s
    by (induction ys) simp_all
  then show ?thesis using True
    by (simp add: buf_hmsb_to_vlsb_def Let_def bytearray_0 range_nonpos)
next
  case False
  then have "h = 0" using assms by simp
  then show ?thesis
    by (simp add: buf_hmsb_to_vlsb_def Let_def get_byte_size_0 bytearray_0 range_nonpos)
qed

text \<open>
  Claim C8, as stated, at a concrete input: a width or a height of 0 is said to be rejected
  with an error before any buffer is allocated. The driver has no such check: the rotation, the
  mirror and the packing conversion return normally, with an empty buffer.
\<close>

theorem zero_dimension_counterexample:
  "xform_buf [0xA5] 0 1 False 90 = Inr ([], 1, 0) \<and>
   mirror_horizontal [0xA5] 1 0 = Inr [] \<and>
   buf_hmsb_to_vlsb [] 0 0 = Inr []"
  by code_simp

text \<open>
  Claim C8, amended: with a width or a height of 0 (and the other one not negative) no
  operation raises. The rotations by 90 and 270 degrees, \<^verbatim>\<open>mirror_horizontal\<close> and
  \<^verbatim>\<open>buf_hmsb_to_vlsb\<close> return an empty buffer (the rotations with the two dimensions
  swapped); the rotations by 180 and 0 degrees never look at the dimensions.
\<close>

theorem zero_dimension_accepted:
  assumes "w = 0 \<or> h = 0" "0 \<le> w" "0 \<le> h"
  shows "xform_buf buf w h False 90 = Inr ([], h, w) \<and>
         xform_buf buf w h False 270 = Inr ([], h, w) \<and>
         xform_buf buf w h False 180 = Inr (rotate180 buf, w, h) \<and>
         xform_buf buf w h False 0 = Inr (buf, w, h) \<and>
         mirror_horizontal buf w h = Inr [] \<and>
         buf_hmsb_to_vlsb buf w h = Inr []"
  using rotate90_zero [OF assms] rotate270_zero [OF assms]
    mirror_horizontal_zero [OF assms] buf_hmsb_to_vlsb_zero [OF assms]
  by (simp add: xform_buf_def)

text \<open>
  The amended claim C8 at width 0 and height 2.
\<close>

theorem zero_dimension_accepted_witness:
  "xform_buf [1, 2] 0 2 False 90 = Inr ([], 2, 0) \<and>
   xform_buf [1, 2] 0 2 False 180 = Inr (rotate180 [1, 2], 0, 2) \<and>
   mirror_horizontal [1, 2] 0 2 = Inr [] \<and>
   buf_hmsb_to_vlsb [1, 2] 0 2 = Inr []"
  using zero_dimension_accepted [of 0 2 "[1, 2]"] by simp

section \<open>Commands and presentation\<close>

lemma write_cmd_noargs: "write_cmd d c [] = (d\<lparr>i2c := i2c d @ [(address d, [0x80, word_of_int c])]\<rparr>, None)"
  by (simp add: write_cmd_def writeto_def)

lemma write_cmd_args:
  "args \<noteq> [] \<Longrightarrow> write_cmd d c args = (writeto d [0x80, word_of_int c], Some TypeError)"
  by (simp add: write_cmd_def write_data_def Let_def)

lemma write_cmds_bus:
  "write_cmds d cmds = (d\<lparr>i2c := i2c d @ map (\<lambda>c. (address d, [0x80, word_of_int c])) cmds\<rparr>, None)"
  by (induction cmds arbitrary: d) (simp_all add: write_cmd_noargs and_then_def)

text \<open>
  Claim C6: \<^verbatim>\<open>present_buf\<close> sends the column address command \<open>0x21\<close> followed by the
  column pair, each byte as its own command write. The pair is \<open>0\<close> and \<open>w - 1\<close>; both are
  shifted by 32 exactly when \<open>w = 64\<close>. Then come the page address command with the pages
  \<open>0\<close> and \<open>(h >> 3) - 1\<close> and the buffer as one data write. \<^verbatim>\<open>present\<close> is
  \<^verbatim>\<open>present_buf\<close> on the display's own buffer, width and height.
\<close>

theorem present_column_offset:
  "present_buf d buf w h =
     (d\<lparr>i2c := i2c d @ map (Pair (address d))
        [[0x80, 0x21],
         [0x80, word_of_int (if w = 64 then 0 + 32 else 0)],
         [0x80, word_of_int (if w = 64 then (w - 1) + 32 else w - 1)],
         [0x80, 0x22], [0x80, 0], [0x80, word_of_int (drop_bit 3 h - 1)],
         0x40 # buf]\<rparr>, None) \<and>
   present d = present_buf d (mono_image d) (width d) (height d)"
  by (simp add: present_def present_buf_def write_cmd_noargs and_then_def write_data_def writeto_def
      COLUMN_ADDRESS_def PAGE_ADDRESS_def)

text \<open>
  Claim C6 on a display 64 wide (columns 32 and 95) and on one 128 wide (columns 0 and 127).
\<close>

theorem present_column_offset_witness:
  "i2c (fst (present_buf \<lparr>address = 0x3C, width = 64, height = 32, pixels = {}, console = [], i2c = []\<rparr> [1, 2] 64 32))
     = [(0x3C, [0x80, 0x21]), (0x3C, [0x80, 32]), (0x3C, [0x80, 95]), (0x3C, [0x80, 0x22]),
        (0x3C, [0x80, 0]), (0x3C, [0x80, 3]), (0x3C, [0x40, 1, 2])] \<and>
   i2c (fst (present_buf \<lparr>address = 0x3C, width = 128, height = 64, pixels = {}, console = [], i2c = []\<rparr> [1, 2] 128 64))
     = [(0x3C, [0x80, 0x21]), (0x3C, [0x80, 0]), (0x3C, [0x80, 127]), (0x3C, [0x80, 0x22]),
        (0x3C, [0x80, 0]), (0x3C, [0x80, 7]), (0x3C, [0x40, 1, 2])]"
  using present_column_offset [of "\<lparr>address = 0x3C, width = 64, height = 32, pixels = {}, console = [], i2c = []\<rparr>" "[1, 2]" 64 32]
    present_column_offset [of "\<lparr>address = 0x3C, width = 128, height = 64, pixels = {}, console = [], i2c = []\<rparr>" "[1, 2]" 128 64]
  by (simp add: drop_bit_eq_div)

text \<open>
  Claim C2 at \<^verbatim>\<open>write_cmd(0x81, 0xFF)\<close>, a command byte with one argument byte. The claim
  has the argument sent as a second command-framed write. The code sends the command
  write and then raises \<^verbatim>\<open>TypeError\<close>: it hands the tuple of arguments to
  \<^verbatim>\<open>write_data\<close>, which builds \<^verbatim>\<open>bytearray([0x40, data])\<close> from it, so the argument
  never reaches the bus. The constructor's way, one call of \<^verbatim>\<open>write_cmd\<close> for each
  byte, puts both bytes on the bus as framed writes.
\<close>

theorem write_cmd_args_raise:
  "write_cmd \<lparr>address = 0x3C, width = 128, height = 64, pixels = {}, console = [], i2c = []\<rparr> 0x81 [0xFF]
     = (\<lparr>address = 0x3C, width = 128, height = 64, pixels = {}, console = [], i2c = [(0x3C, [0x80, 0x81])]\<rparr>,
        Some TypeError) \<and>
   write_cmds \<lparr>address = 0x3C, width = 128, height = 64, pixels = {}, console = [], i2c = []\<rparr> [0x81, 0xFF]
     = (\<lparr>address = 0x3C, width = 128, height = 64, pixels = {}, console = [],
         i2c = [(0x3C, [0x80, 0x81]), (0x3C, [0x80, 0xFF])]\<rparr>, None)"
  by (simp add: write_cmd_def write_data_def writeto_def and_then_def)

section \<open>Whole-primitive bounds checks\<close>

lemma is_off_grid_frame:
  "pixels (fst (is_off_grid d xmin ymin xmax ymax)) = pixels d"
  "width (fst (is_off_grid d xmin ymin xmax ymax)) = width d"
  "height (fst (is_off_grid d xmin ymin xmax ymax)) = height d"
  by (simp_all add: is_off_grid_def print_def)

lemma is_off_grid_answer:
  "snd (is_off_grid d xmin ymin xmax ymax) \<longleftrightarrow>
     xmin < 0 \<or> ymin < 0 \<or> width d \<le> xmax \<or> height d \<le> ymax"
  by (simp add: is_off_grid_def)

lemma draw_vline_dims:
  "width (draw_vline d x y h invert) = width d"
  "height (draw_vline d x y h invert) = height d"
  by (simp_all add: draw_vline_def is_off_grid_def print_def fb_vline_def fb_fill_rect_def Let_def)

lemma draw_vline_skipped:
  assumes "height d \<le> y + h"
  shows "pixels (draw_vline d x y h invert) = pixels d"
  using assms by (simp add: draw_vline_def is_off_grid_def print_def)

lemma draw_vline_bottom_row:
  assumes "height d - 1 \<le> b"
  shows "(a, b) \<in> pixels (draw_vline d x y h invert) \<longleftrightarrow> (a, b) \<in> pixels d"
  using assms
  by (auto simp: draw_vline_def is_off_grid_def print_def fb_vline_def fb_fill_rect_def Let_def)

lemma fill_circle_loop_bottom_row:
  assumes "height d - 1 \<le> b"
  shows "(a, b) \<in> pixels (fill_circle_loop d x0 y0 invert f dx dy x y) \<longleftrightarrow> (a, b) \<in> pixels d"
  using assms
proof (induction "nat (y - x)" arbitrary: d f dx dy x y rule: less_induct)
  case less
  show ?case
  proof (cases "x < y")
    case False
    then show ?thesis by simp
  next
    case True
    define y1 where "y1 = (if f \<ge> 0 then y - 1 else y)"
    define dy1 where "dy1 = (if f \<ge> 0 then dy + 2 else dy)"
    define f1 where "f1 = (if f \<ge> 0 then f + (dy + 2) else f)"
    define d1 where "d1 = draw_vline d (x0 + (x + 1)) (y0 - y1) (2 * y1 + 1) invert"
    define d2 where "d2 = draw_vline d1 (x0 - (x + 1)) (y0 - y1) (2 * y1 + 1) invert"
    define d3 where "d3 = draw_vline d2 (x0 - y1) (y0 - (x + 1)) (2 * (x + 1) + 1) invert"
    define d4 where "d4 = draw_vline d3 (x0 + y1) (y0 - (x + 1)) (2 * (x + 1) + 1) invert"
    have tr: "(if f \<ge> 0 then (y - 1, dy + 2, f + (dy + 2)) else (y, dy, f)) = (y1, dy1, f1)"
      by (simp add: y1_def dy1_def f1_def)
    have step: "fill_circle_loop d x0 y0 invert f dx dy x y
                  = fill_circle_loop d4 x0 y0 invert (f1 + (dx + 2)) (dx + 2) dy1 (x + 1) y1"
      using True
      by (subst fill_circle_loop.simps) (simp add: tr Let_def d1_def d2_def d3_def d4_def)
    have h4: "height d4 = height d"
      by (simp add: d4_def d3_def d2_def d1_def draw_vline_dims)
    have IH: "(a, b) \<in> pixels (fill_circle_loop d4 x0 y0 invert (f1 + (dx + 2)) (dx + 2) dy1 (x + 1) y1)
                \<longleftrightarrow> (a, b) \<in> pixels d4"
      by (rule less.hyps) (use True less.prems in \<open>auto simp: y1_def h4\<close>)
    have "(a, b) \<in> pixels d4 \<longleftrightarrow> (a, b) \<in> pixels d"
      using less.prems
      by (simp add: d4_def d3_def d2_def d1_def draw_vline_bottom_row draw_vline_dims)
    with IH step show ?thesis by simp
  qed
qed

text \<open>
  Claim C1 at a rectangle that starts one pixel left of a blank 128 by 64 display:
  \<^verbatim>\<open>draw_rectangle\<close> has no bounds check, so the part of the rectangle on the display is
  drawn and nothing is printed, whereas \<^verbatim>\<open>fill_rectangle\<close> with the same arguments leaves
  the frame unchanged and prints the off-grid message.
\<close>

theorem draw_rectangle_unguarded:
  "(1, 1) \<in> pixels (draw_rectangle \<lparr>address = 0x3C, width = 128, height = 64, pixels = {}, console = [], i2c = []\<rparr> (- 1) 0 3 3 False) \<and>
   console (draw_rectangle \<lparr>address = 0x3C, width = 128, height = 64, pixels = {}, console = [], i2c = []\<rparr> (- 1) 0 3 3 False) = [] \<and>
   fill_rectangle \<lparr>address = 0x3C, width = 128, height = 64, pixels = {}, console = [], i2c = []\<rparr> (- 1) 0 3 3 False
     = \<lparr>address = 0x3C, width = 128, height = 64, pixels = {}, console = [XBelowMinimum (- 1)], i2c = []\<rparr>"
  by (simp add: draw_rectangle_def fb_rect_def fb_fill_rect_def colour_def fill_rectangle_def
      is_off_grid_def print_def)

text \<open>
  Claim C10: \<^verbatim>\<open>draw_vline(x, y, h)\<close> checks the row \<open>y + h\<close>, one past its last
  pixel. So with \<open>h \<ge> 1\<close> and \<open>y + h = height\<close> it draws nothing, although its
  footprint, which ends in row \<open>y + h - 1\<close>, is on the grid whenever \<open>x\<close> and \<open>y\<close>
  are; a line of full height from row 0 is not drawn; and \<^verbatim>\<open>fill_circle\<close>, whose spans
  are drawn by \<^verbatim>\<open>draw_vline\<close>, never changes a pixel of the bottom row. The only trace of
  a dropped span is the message of \<^verbatim>\<open>is_off_grid\<close> on the console.
\<close>

theorem draw_vline_drops_last_row:
  assumes "1 \<le> h" "y + h = height d"
  shows "pixels (draw_vline d x y h invert) = pixels d \<and>
         (0 \<le> x \<and> x < width d \<and> 0 \<le> y \<longrightarrow> \<not> snd (is_off_grid d x y x (y + h - 1))) \<and>
         pixels (draw_vline d x 0 (height d) invert) = pixels d \<and>
         (\<forall>a. (a, height d - 1) \<in> pixels (fill_circle d x0 y0 r invert) \<longleftrightarrow> (a, height d - 1) \<in> pixels d)"
proof -
  have 1: "pixels (draw_vline d x y h invert) = pixels d"
    using assms by (simp add: draw_vline_skipped)
  have 2: "0 \<le> x \<and> x < width d \<and> 0 \<le> y \<longrightarrow> \<not> snd (is_off_grid d x y x (y + h - 1))"
    using assms by (simp add: is_off_grid_answer)
  have 3: "pixels (draw_vline d x 0 (height d) invert) = pixels d"
    by (simp add: draw_vline_skipped)
  have 4: "(a, height d - 1) \<in> pixels (fill_circle d x0 y0 r invert) \<longleftrightarrow> (a, height d - 1) \<in> pixels d" for a
  proof -
    define d1 where "d1 = draw_vline d x0 (y0 - r) (2 * r + 1) invert"
    have h1: "height d1 = height d" by (simp add: d1_def draw_vline_dims)
    have "fill_circle d x0 y0 r invert = fill_circle_loop d1 x0 y0 invert (1 - r) 1 (- r - r) 0 r"
      by (simp add: fill_circle_def Let_def d1_def)
    moreover have "(a, height d - 1) \<in> pixels (fill_circle_loop d1 x0 y0 invert (1 - r) 1 (- r - r) 0 r)
        \<longleftrightarrow> (a, height d - 1) \<in> pixels d1"
      by (rule fill_circle_loop_bottom_row) (simp add: h1)
    moreover have "(a, height d - 1) \<in> pixels d1 \<longleftrightarrow> (a, height d - 1) \<in> pixels d"
      unfolding d1_def by (rule draw_vline_bottom_row) simp
    ultimately show ?thesis by simp
  qed
  show ?thesis using 1 2 3 4 by blast
qed

text \<open>
  Claim C10 on a blank 8 by 8 display: the line of full height in column 3, and the filled
  circle of radius 3 around \<open>(3, 4)\<close>, whose lowest point \<open>(3, 7)\<close> stays dark.
\<close>

theorem draw_vline_drops_last_row_witness:
  "pixels (draw_vline \<lparr>address = 0x3C, width = 8, height = 8, pixels = {}, console = [], i2c = []\<rparr> 3 0 8 False) = {} \<and>
   \<not> snd (is_off_grid \<lparr>address = 0x3C, width = 8, height = 8, pixels = {}, console = [], i2c = []\<rparr> 3 0 3 7) \<and>
   (3, 7) \<notin> pixels (fill_circle \<lparr>address = 0x3C, width = 8, height = 8, pixels = {}, console = [], i2c = []\<rparr> 3 4 3 False)"
  using draw_vline_drops_last_row [of 8 0 "\<lparr>address = 0x3C, width = 8, height = 8, pixels = {}, console = [], i2c = []\<rparr>" 3 False 3 4 3]
  by simp


section \<open>The circle\<close>

lemma octant_points_iff:
  "(x0 + u, y0 + v) \<in> octant_points x0 y0 a b \<longleftrightarrow>
     (u = a \<or> u = - a) \<and> (v = b \<or> v = - b) \<or> (u = b \<or> u = - b) \<and> (v = a \<or> v = - a)"
  unfolding octant_points_def by auto

lemma octant_points_sym:
  assumes "(x0 + u, y0 + v) \<in> octant_points x0 y0 a b"
  shows "(x0 - u, y0 + v) \<in> octant_points x0 y0 a b"
    and "(x0 + u, y0 - v) \<in> octant_points x0 y0 a b"
    and "(x0 + v, y0 + u) \<in> octant_points x0 y0 a b"
proof -
  have D: "(u = a \<or> u = - a) \<and> (v = b \<or> v = - b) \<or> (u = b \<or> u = - b) \<and> (v = a \<or> v = - a)"
    using assms by (simp only: octant_points_iff)
  have "(- u = a \<or> - u = - a) \<and> (v = b \<or> v = - b) \<or> (- u = b \<or> - u = - b) \<and> (v = a \<or> v = - a)"
    using D by linarith
  then have "(x0 + (- u), y0 + v) \<in> octant_points x0 y0 a b" by (simp only: octant_points_iff)
  then show "(x0 - u, y0 + v) \<in> octant_points x0 y0 a b" by simp
  have "(u = a \<or> u = - a) \<and> (- v = b \<or> - v = - b) \<or> (u = b \<or> u = - b) \<and> (- v = a \<or> - v = - a)"
    using D by linarith
  then have "(x0 + u, y0 + (- v)) \<in> octant_points x0 y0 a b" by (simp only: octant_points_iff)
  then show "(x0 + u, y0 - v) \<in> octant_points x0 y0 a b" by simp
  have "(v = a \<or> v = - a) \<and> (u = b \<or> u = - b) \<or> (v = b \<or> v = - b) \<and> (u = a \<or> u = - a)"
    using D by blast
  then show "(x0 + v, y0 + u) \<in> octant_points x0 y0 a b" by (simp only: octant_points_iff)
qed

lemma symmetric8_union:
  assumes "symmetric8 x0 y0 P"
  shows "symmetric8 x0 y0 (P \<union> octant_points x0 y0 a b)"
  unfolding symmetric8_def
proof (intro allI impI)
  fix u v assume "(x0 + u, y0 + v) \<in> P \<union> octant_points x0 y0 a b"
  then consider "(x0 + u, y0 + v) \<in> P" | "(x0 + u, y0 + v) \<in> octant_points x0 y0 a b" by blast
  then show "(x0 - u, y0 + v) \<in> P \<union> octant_points x0 y0 a b \<and>
             (x0 + u, y0 - v) \<in> P \<union> octant_points x0 y0 a b \<and>
             (x0 + v, y0 + u) \<in> P \<union> octant_points x0 y0 a b"
  proof cases
    case 1
    with assms show ?thesis unfolding symmetric8_def by blast
  next
    case 2
    from octant_points_sym [OF 2] show ?thesis by blast
  qed
qed

lemma symmetric8_empty: "symmetric8 x0 y0 {}"
  by (simp add: symmetric8_def)

lemma draw_pixel_on_grid:
  assumes "0 \<le> x" "x < width d" "0 \<le> y" "y < height d"
  shows "draw_pixel d x y False = d\<lparr>pixels := insert (x, y) (pixels d)\<rparr>"
  using assms by (simp add: draw_pixel_def is_off_grid_def fb_pixel_def colour_def)

lemma plot8_on_grid:
  assumes "0 \<le> x0 - r" "x0 + r < width d" "0 \<le> y0 - r" "y0 + r < height d"
    and "0 \<le> a" "a \<le> r" "0 \<le> b" "b \<le> r"
  shows "draw_pixel (draw_pixel (draw_pixel (draw_pixel (draw_pixel (draw_pixel (draw_pixel (draw_pixel d
           (x0 + a) (y0 + b) False) (x0 - a) (y0 + b) False) (x0 + a) (y0 - b) False) (x0 - a) (y0 - b) False)
           (x0 + b) (y0 + a) False) (x0 - b) (y0 + a) False) (x0 + b) (y0 - a) False) (x0 - b) (y0 - a) False
         = d\<lparr>pixels := pixels d \<union> octant_points x0 y0 a b\<rparr>"
proof -
  have on: "draw_pixel e x y False = e\<lparr>pixels := insert (x, y) (pixels e)\<rparr>"
    if "width e = width d" "height e = height d" "x0 - r \<le> x" "x \<le> x0 + r" "y0 - r \<le> y" "y \<le> y0 + r"
    for e x y
    by (rule draw_pixel_on_grid) (use that assms in auto)
  show ?thesis
    using assms by (simp add: on octant_points_def insert_commute)
qed

lemma circle_loop_symmetric:
  assumes "0 \<le> x0 - r" "x0 + r < width d" "0 \<le> y0 - r" "y0 + r < height d"
    and "0 \<le> x" "y \<le> r" "symmetric8 x0 y0 (pixels d)"
  shows "symmetric8 x0 y0 (pixels (circle_loop d x0 y0 False f dx dy x y))"
  using assms
proof (induction "nat (y - x)" arbitrary: d f dx dy x y rule: less_induct)
  case less
  show ?case
  proof (cases "x < y")
    case False
    then show ?thesis using less.prems by simp
  next
    case True
    define y1 where "y1 = (if f \<ge> 0 then y - 1 else y)"
    define dy1 where "dy1 = (if f \<ge> 0 then dy + 2 else dy)"
    define f1 where "f1 = (if f \<ge> 0 then f + (dy + 2) else f)"
    define d8 where "d8 = d\<lparr>pixels := pixels d \<union> octant_points x0 y0 (x + 1) y1\<rparr>"
    have tr: "(if f \<ge> 0 then (y - 1, dy + 2, f + (dy + 2)) else (y, dy, f)) = (y1, dy1, f1)"
      by (simp add: y1_def dy1_def f1_def)
    have b: "0 \<le> x + 1" "x + 1 \<le> r" "0 \<le> y1" "y1 \<le> r"
      using True less.prems by (auto simp: y1_def)
    have p8: "draw_pixel (draw_pixel (draw_pixel (draw_pixel (draw_pixel (draw_pixel (draw_pixel (draw_pixel d
           (x0 + (x + 1)) (y0 + y1) False) (x0 - (x + 1)) (y0 + y1) False) (x0 + (x + 1)) (y0 - y1) False) (x0 - (x + 1)) (y0 - y1) False)
           (x0 + y1) (y0 + (x + 1)) False) (x0 - y1) (y0 + (x + 1)) False) (x0 + y1) (y0 - (x + 1)) False) (x0 - y1) (y0 - (x + 1)) False
         = d8"
      unfolding d8_def by (rule plot8_on_grid [OF less.prems(1-4) b])
    have step: "circle_loop d x0 y0 False f dx dy x y
                  = circle_loop d8 x0 y0 False (f1 + (dx + 2)) (dx + 2) dy1 (x + 1) y1"
      using True
      by (subst circle_loop.simps) (simp only: tr Let_def p8 if_True prod.case)
    have "symmetric8 x0 y0 (pixels (circle_loop d8 x0 y0 False (f1 + (dx + 2)) (dx + 2) dy1 (x + 1) y1))"
    proof (rule less.hyps)
      show "nat (y1 - (x + 1)) < nat (y - x)" using True by (auto simp: y1_def)
      show "0 \<le> x0 - r" "0 \<le> y0 - r" by fact+
      show "x0 + r < width d8" "y0 + r < height d8" using less.prems by (simp_all add: d8_def)
      show "0 \<le> x + 1" "y1 \<le> r" by fact+
      show "symmetric8 x0 y0 (pixels d8)"
        using symmetric8_union [OF less.prems(7)] by (simp add: d8_def)
    qed
    with step show ?thesis by simp
  qed
qed

lemma draw_circle_eq:
  assumes "0 \<le> r" "0 \<le> x0 - r" "x0 + r < width d" "0 \<le> y0 - r" "y0 + r < height d"
  shows "draw_circle d x0 y0 r False
           = circle_loop (d\<lparr>pixels := pixels d \<union> octant_points x0 y0 0 r\<rparr>) x0 y0 False (1 - r) 1 (- r - r) 0 r"
proof -
  have "draw_pixel (draw_pixel (draw_pixel (draw_pixel d x0 (y0 + r) False) x0 (y0 - r) False) (x0 + r) y0 False) (x0 - r) y0 False
          = d\<lparr>pixels := pixels d \<union> octant_points x0 y0 0 r\<rparr>"
    using assms by (simp add: draw_pixel_on_grid octant_points_def insert_commute)
  then show ?thesis by (simp add: draw_circle_def Let_def)
qed

text \<open>
  Claim C9: a circle of radius \<open>r \<ge> 1\<close> around \<open>(x0, y0)\<close> that lies inside the
  display, drawn on a blank frame, lights a set of pixels that is closed under negating
  the x-offset, negating the y-offset and swapping the two offsets, hence under all eight
  reflections about \<open>(x0, y0)\<close>.
\<close>

theorem draw_circle_eightfold_symmetry:
  assumes "1 \<le> r" "0 \<le> x0 - r" "x0 + r < width d" "0 \<le> y0 - r" "y0 + r < height d"
    and "pixels d = {}"
  shows "\<forall>a b. (x0 + a, y0 + b) \<in> pixels (draw_circle d x0 y0 r False) \<longrightarrow>
           (x0 - a, y0 + b) \<in> pixels (draw_circle d x0 y0 r False) \<and>
           (x0 + a, y0 - b) \<in> pixels (draw_circle d x0 y0 r False) \<and>
           (x0 + b, y0 + a) \<in> pixels (draw_circle d x0 y0 r False)"
proof -
  have r0: "0 \<le> r" using assms(1) by simp
  define d4 where "d4 = d\<lparr>pixels := pixels d \<union> octant_points x0 y0 0 r\<rparr>"
  have "symmetric8 x0 y0 (pixels d4)"
    using symmetric8_union [OF symmetric8_empty, of x0 y0 0 r] assms(6) by (simp add: d4_def)
  then have "symmetric8 x0 y0 (pixels (circle_loop d4 x0 y0 False (1 - r) 1 (- r - r) 0 r))"
    by (intro circle_loop_symmetric [where r = r]) (use assms in \<open>simp_all add: d4_def\<close>)
  then have "symmetric8 x0 y0 (pixels (draw_circle d x0 y0 r False))"
    using draw_circle_eq [OF r0 assms(2-5)] by (simp add: d4_def)
  then show ?thesis unfolding symmetric8_def .
qed

text \<open>
  Claim C9 for the circle of radius 3 around \<open>(3, 4)\<close> on an 8 by 8 display: the pixel
  at offset \<open>(1, 3)\<close> is lit, and so are its three reflections.
\<close>

theorem draw_circle_eightfold_symmetry_witness:
  "(3 + 1, 4 + 3) \<in> pixels (draw_circle \<lparr>address = 0x3C, width = 8, height = 8, pixels = {}, console = [], i2c = []\<rparr> 3 4 3 False) \<and>
   (3 - 1, 4 + 3) \<in> pixels (draw_circle \<lparr>address = 0x3C, width = 8, height = 8, pixels = {}, console = [], i2c = []\<rparr> 3 4 3 False) \<and>
   (3 + 1, 4 - 3) \<in> pixels (draw_circle \<lparr>address = 0x3C, width = 8, height = 8, pixels = {}, console = [], i2c = []\<rparr> 3 4 3 False) \<and>
   (3 + 3, 4 + 1) \<in> pixels (draw_circle \<lparr>address = 0x3C, width = 8, height = 8, pixels = {}, console = [], i2c = []\<rparr> 3 4 3 False)"
proof -
  let ?d = "\<lparr>address = 0x3C, width = 8, height = 8, pixels = {}, console = [], i2c = []\<rparr>"
  have 1: "(3 + 1, 4 + 3) \<in> pixels (draw_circle ?d 3 4 3 False)"
    by code_simp
  have "\<forall>a b. (3 + a, 4 + b) \<in> pixels (draw_circle ?d 3 4 3 False) \<longrightarrow>
           (3 - a, 4 + b) \<in> pixels (draw_circle ?d 3 4 3 False) \<and>
           (3 + a, 4 - b) \<in> pixels (draw_circle ?d 3 4 3 False) \<and>
           (3 + b, 4 + a) \<in> pixels (draw_circle ?d 3 4 3 False)"
    by (rule draw_circle_eightfold_symmetry) simp_all
  with 1 show ?thesis by blast
qed


section \<open>Scattering bits\<close>

lemma and_7_int: "(x::int) AND 7 = x mod 8"
proof -
  have "x AND 7 = x AND mask 3" by (simp add: mask_eq_exp_minus_1)
  also have "\<dots> = take_bit 3 x" by (simp only: take_bit_eq_mask)
  also have "\<dots> = x mod 8" by (simp add: take_bit_eq_mod)
  finally show ?thesis .
qed

lemma drop_bit_3_int: "drop_bit 3 (x::int) = x div 8"
  by (simp add: drop_bit_eq_div)

lemma get_byte_size_eq: "get_byte_size w = (w + 7) div 8"
  by (simp add: get_byte_size_def drop_bit_eq_div)

lemma set_range: "set (range n) = {0..<n}"
  by (auto simp: range_def)

lemma bit_val_bit: "db < 8 \<Longrightarrow> bit (push_bit db (drop_bit sb (b::byte) AND 1)) k \<longleftrightarrow> k = db \<and> bit b sb"
  by (auto simp: bit_push_bit_iff bit_and_iff bit_drop_bit_eq bit_1_iff bit_exp_iff)

lemma scatters_or_bit:
  assumes "0 \<le> si" "si < int (length buf)" "0 \<le> sb" "0 \<le> di" "di < int n" "0 \<le> db" "db < 8"
  shows "scatters n buf (or_bit buf si sb di db) {(nat si, nat sb, nat di, nat db)}"
  unfolding scatters_def
proof (intro allI impI)
  fix s :: "byte list" assume len: "length s = n"
  define v where "v = push_bit (nat db) (drop_bit (nat sb) (buf ! nat si) AND 1)"
  have v: "bit v k \<longleftrightarrow> k = nat db \<and> bit (buf ! nat si) (nat sb)" for k
    unfolding v_def by (rule bit_val_bit) (use assms in simp)
  let ?s' = "s[nat di := s ! nat di OR v]"
  have 1: "or_bit buf si sb di db s = Inr ?s'"
    using assms len unfolding v_def
    by (simp add: or_bit_def getitem_def setitem_def norm_index_def Let_def)
  have 2: "\<forall>i<n. \<forall>k. bit (?s' ! i) k \<longleftrightarrow>
               bit (s ! i) k \<or> (nat di = i \<and> nat db = k \<and> bit (buf ! nat si) (nat sb))"
    using assms len by (auto simp: nth_list_update bit_or_iff v)
  show "\<exists>s'. or_bit buf si sb di db s = Inr s' \<and> length s' = n \<and>
           (\<forall>i<n. \<forall>k. bit (s' ! i) k \<longleftrightarrow>
               bit (s ! i) k \<or> (\<exists>it\<in>{(nat si, nat sb, nat di, nat db)}. fst (snd (snd it)) = i \<and> snd (snd (snd it)) = k \<and> bit (buf ! fst it) (fst (snd it))))"
    using 1 2 len by simp
qed

lemma scatters_seq:
  assumes "scatters n buf f A" "scatters n buf g B"
  shows "scatters n buf (\<lambda>s. case f s of Inl e \<Rightarrow> Inl e | Inr s' \<Rightarrow> g s') (A \<union> B)"
  unfolding scatters_def
proof (intro allI impI)
  fix s :: "byte list" assume len: "length s = n"
  from assms(1) len obtain s1 where s1: "f s = Inr s1" "length s1 = n"
    "\<forall>i<n. \<forall>k. bit (s1 ! i) k \<longleftrightarrow> bit (s ! i) k \<or> (\<exists>it\<in>A. fst (snd (snd it)) = i \<and> snd (snd (snd it)) = k \<and> bit (buf ! fst it) (fst (snd it)))"
    unfolding scatters_def by blast
  from assms(2) s1(2) obtain s2 where s2: "g s1 = Inr s2" "length s2 = n"
    "\<forall>i<n. \<forall>k. bit (s2 ! i) k \<longleftrightarrow> bit (s1 ! i) k \<or> (\<exists>it\<in>B. fst (snd (snd it)) = i \<and> snd (snd (snd it)) = k \<and> bit (buf ! fst it) (fst (snd it)))"
    unfolding scatters_def by blast
  have "\<forall>i<n. \<forall>k. bit (s2 ! i) k \<longleftrightarrow> bit (s ! i) k \<or> (\<exists>it\<in>A \<union> B. fst (snd (snd it)) = i \<and> snd (snd (snd it)) = k \<and> bit (buf ! fst it) (fst (snd it)))"
    using s1(3) s2(3) by blast
  then show "\<exists>s'. (case f s of Inl e \<Rightarrow> Inl e | Inr s' \<Rightarrow> g s') = Inr s' \<and> length s' = n \<and>
           (\<forall>i<n. \<forall>k. bit (s' ! i) k \<longleftrightarrow>
               bit (s ! i) k \<or> (\<exists>it\<in>A \<union> B. fst (snd (snd it)) = i \<and> snd (snd (snd it)) = k \<and> bit (buf ! fst it) (fst (snd it))))"
    using s1(1) s2(1,2) by simp
qed

lemma scatters_skip: "scatters n buf Inr {}"
  by (simp add: scatters_def)

lemma scatters_for_each:
  assumes "\<And>x. x \<in> set xs \<Longrightarrow> scatters n buf (body x) (A x)"
  shows "scatters n buf (for_each body xs) (\<Union>x\<in>set xs. A x)"
  using assms
proof (induction xs)
  case Nil
  have "for_each body [] = Inr" by (rule ext) simp
  then show ?case by (simp add: scatters_skip)
next
  case (Cons x xs)
  have a: "scatters n buf (body x) (A x)" using Cons.prems by simp
  have b: "scatters n buf (for_each body xs) (\<Union>x\<in>set xs. A x)"
    using Cons by simp
  have c: "for_each body (x # xs) = (\<lambda>s. case body x s of Inl e \<Rightarrow> Inl e | Inr s' \<Rightarrow> for_each body xs s')"
    by (rule ext) simp
  have d: "(\<Union>x\<in>set (x # xs). A x) = A x \<union> (\<Union>x\<in>set xs. A x)" by simp
  show ?case unfolding c d by (rule scatters_seq [OF a b])
qed

lemma scatters_result:
  assumes "scatters (nat m) buf f its" "0 \<le> m"
  shows "\<exists>out. (case bytearray m of Inl e \<Rightarrow> Inl e | Inr buf2 \<Rightarrow> f buf2) = Inr out \<and> length out = nat m \<and>
           (\<forall>i<nat m. \<forall>k. bit (out ! i) k \<longleftrightarrow>
              (\<exists>it\<in>its. fst (snd (snd it)) = i \<and> snd (snd (snd it)) = k \<and> bit (buf ! fst it) (fst (snd it))))"
proof -
  have "length (replicate (nat m) (0::byte)) = nat m" by simp
  with assms(1) obtain s' where s': "f (replicate (nat m) 0) = Inr s'" "length s' = nat m"
    "\<forall>i<nat m. \<forall>k. bit (s' ! i) k \<longleftrightarrow> bit (replicate (nat m) (0::byte) ! i) k \<or> (\<exists>it\<in>its. fst (snd (snd it)) = i \<and> snd (snd (snd it)) = k \<and> bit (buf ! fst it) (fst (snd it)))"
    unfolding scatters_def by blast
  then show ?thesis using assms(2) by (simp add: bytearray_def)
qed

lemma idx_bound:
  fixes y h a m :: int
  assumes "0 \<le> y" "y < h" "0 \<le> a" "a < m"
  shows "0 \<le> y * m + a" and "y * m + a < h * m"
proof -
  show "0 \<le> y * m + a" using assms by simp
  have "y * m + a < (y + 1) * m" using assms by (simp add: algebra_simps)
  also have "\<dots> \<le> h * m" using assms by (intro mult_right_mono) auto
  finally show "y * m + a < h * m" .
qed

lemma idx_inj:
  fixes y y' a b m :: int
  assumes "0 \<le> a" "a < m" "0 \<le> b" "b < m" "y * m + a = y' * m + b"
  shows "y = y' \<and> a = b"
proof -
  have m: "m \<noteq> 0" using assms by auto
  have "(a + y * m) div m = a div m + y" "(b + y' * m) div m = b div m + y'"
    using m by simp_all
  moreover have "a div m = 0" "b div m = 0" using assms by (simp_all add: div_pos_pos_trivial)
  ultimately have "y = y'" using assms(5) by (simp add: add.commute)
  then show ?thesis using assms(5) by simp
qed

lemma idx_mod:
  fixes y a m :: int
  assumes "0 \<le> a" "a < m"
  shows "(y * m + a) mod m = a"
  using assms by auto

lemma div8_bound:
  fixes x w :: int
  assumes "0 \<le> x" "x < w"
  shows "0 \<le> x div 8" and "x div 8 < get_byte_size w"
  using assms by (auto simp: get_byte_size_eq)

lemma divmod8_inj:
  fixes x x' :: int
  assumes "x div 8 = x' div 8" "x mod 8 = x' mod 8"
  shows "x = x'"
  using assms by (metis mult_div_mod_eq)


section \<open>Rotation by 90 degrees\<close>

lemma rotate90_bits:
  assumes "0 \<le> w" "0 \<le> h" "get_byte_size w * h \<le> int (length buf)"
  shows "\<exists>out. rotate90 buf w h = Inr out \<and> length out = nat (get_byte_size h * w) \<and>
           (\<forall>i<nat (get_byte_size h * w). \<forall>k. bit (out ! i) k \<longleftrightarrow>
              (\<exists>y1\<in>{0..<h}. \<exists>x1\<in>{0..<w}.
                  nat (x1 * get_byte_size h + (h - 1 - y1) div 8) = i \<and> nat ((h - 1 - y1) mod 8) = k \<and>
                  bit (buf ! nat (y1 * get_byte_size w + x1 div 8)) (nat (x1 mod 8))))"
proof -
  define wb where "wb = get_byte_size w"
  define hb where "hb = get_byte_size h"
  define n where "n = nat (hb * w)"
  have hb0: "0 \<le> hb" using assms by (simp add: hb_def get_byte_size_eq)
  have m0: "0 \<le> hb * w" using hb0 assms by simp
  define item where "item y1 x1 = (nat (y1 * wb + x1 div 8), nat (x1 mod 8), nat (x1 * hb + (h - 1 - y1) div 8), nat ((h - 1 - y1) mod 8))" for y1 x1 :: int
  have body: "scatters n buf (or_bit buf (y1 * wb + drop_bit 3 x1) (x1 AND 7) (x1 * hb + drop_bit 3 (h - 1 - y1)) ((h - 1 - y1) AND 7)) {item y1 x1}"
    if "y1 \<in> set (range h)" "x1 \<in> set (range w)" for y1 x1
  proof -
    have y: "0 \<le> y1" "y1 < h" and x: "0 \<le> x1" "x1 < w" using that by (auto simp: set_range)
    have x2: "0 \<le> h - 1 - y1" "h - 1 - y1 < h" using y by auto
    have 1: "0 \<le> y1 * wb + x1 div 8" "y1 * wb + x1 div 8 < int (length buf)"
      using idx_bound [OF y div8_bound [OF x]] assms(3) by (auto simp: wb_def mult.commute)
    have 2: "0 \<le> x1 * hb + (h - 1 - y1) div 8" "x1 * hb + (h - 1 - y1) div 8 < int n"
      using idx_bound [OF x div8_bound [OF x2]] m0 by (auto simp: hb_def n_def mult.commute)
    have "scatters n buf (or_bit buf (y1 * wb + x1 div 8) (x1 mod 8) (x1 * hb + (h - 1 - y1) div 8) ((h - 1 - y1) mod 8))
            {(nat (y1 * wb + x1 div 8), nat (x1 mod 8), nat (x1 * hb + (h - 1 - y1) div 8), nat ((h - 1 - y1) mod 8))}"
      by (rule scatters_or_bit) (use 1 2 in auto)
    then show ?thesis by (simp add: and_7_int drop_bit_3_int item_def)
  qed
  have inner: "scatters n buf (for_each (\<lambda>x1. or_bit buf (y1 * wb + drop_bit 3 x1) (x1 AND 7) (x1 * hb + drop_bit 3 (h - 1 - y1)) ((h - 1 - y1) AND 7)) (range w))
                 (\<Union>x1\<in>set (range w). {item y1 x1})"
    if "y1 \<in> set (range h)" for y1
    by (rule scatters_for_each) (rule body [OF that])
  have outer: "scatters n buf (for_each (\<lambda>y1. for_each (\<lambda>x1. or_bit buf (y1 * wb + drop_bit 3 x1) (x1 AND 7) (x1 * hb + drop_bit 3 (h - 1 - y1)) ((h - 1 - y1) AND 7)) (range w)) (range h))
                 (\<Union>y1\<in>set (range h). \<Union>x1\<in>set (range w). {item y1 x1})"
    by (rule scatters_for_each) (rule inner)
  from scatters_result [OF outer [unfolded n_def] m0]
  obtain out where out: "rotate90 buf w h = Inr out" "length out = nat (hb * w)"
    and bits: "\<forall>i<nat (hb * w). \<forall>k. bit (out ! i) k \<longleftrightarrow>
      (\<exists>it\<in>(\<Union>y1\<in>set (range h). \<Union>x1\<in>set (range w). {item y1 x1}).
         fst (snd (snd it)) = i \<and> snd (snd (snd it)) = k \<and> bit (buf ! fst it) (fst (snd it)))"
    unfolding rotate90_def Let_def wb_def [symmetric] hb_def [symmetric] by blast
  have "bit (out ! i) k \<longleftrightarrow>
      (\<exists>y1\<in>{0..<h}. \<exists>x1\<in>{0..<w}.
          nat (x1 * hb + (h - 1 - y1) div 8) = i \<and> nat ((h - 1 - y1) mod 8) = k \<and>
          bit (buf ! nat (y1 * wb + x1 div 8)) (nat (x1 mod 8)))"
    if "i < nat (hb * w)" for i k
    using bits that unfolding set_range item_def by simp
  then show ?thesis using out unfolding wb_def hb_def by blast
qed

lemma pixel_hmsb_eq: "pixel_hmsb buf w x y = bit (buf ! nat (y * get_byte_size w + x div 8)) (nat (x mod 8))"
  by (simp add: pixel_hmsb_def and_7_int drop_bit_3_int)

lemma rotate90_spec:
  assumes "0 \<le> w" "0 \<le> h" "get_byte_size w * h \<le> int (length buf)"
  shows "\<exists>out. rotate90 buf w h = Inr out \<and> wf_bitmap out h w \<and>
           (\<forall>x y. 0 \<le> x \<and> x < h \<and> 0 \<le> y \<and> y < w \<longrightarrow>
                  pixel_hmsb out h x y = pixel_hmsb buf w y (h - 1 - x))"
proof -
  define wb where "wb = get_byte_size w"
  define hb where "hb = get_byte_size h"
  have hb0: "0 \<le> hb" using assms by (simp add: hb_def get_byte_size_eq)
  have m0: "0 \<le> hb * w" using hb0 assms by simp
  from rotate90_bits [OF assms]
  obtain out where out: "rotate90 buf w h = Inr out" "length out = nat (hb * w)"
    and bits: "\<And>i k. i < nat (hb * w) \<Longrightarrow> bit (out ! i) k \<longleftrightarrow>
              (\<exists>y1\<in>{0..<h}. \<exists>x1\<in>{0..<w}.
                  nat (x1 * hb + (h - 1 - y1) div 8) = i \<and> nat ((h - 1 - y1) mod 8) = k \<and>
                  bit (buf ! nat (y1 * wb + x1 div 8)) (nat (x1 mod 8)))"
    unfolding wb_def hb_def by blast
  have pad: "(int i mod hb) * 8 + int k < h" if "i < length out" "bit (out ! i) k" for i k
  proof -
    from bits [of i k] that out(2)
    obtain y1 x1 where y: "0 \<le> y1" "y1 < h" and x: "0 \<le> x1" "x1 < w"
      and i: "nat (x1 * hb + (h - 1 - y1) div 8) = i" and k: "nat ((h - 1 - y1) mod 8) = k"
      by auto
    have x2: "0 \<le> h - 1 - y1" "h - 1 - y1 < h" using y by auto
    have b: "0 \<le> (h - 1 - y1) div 8" "(h - 1 - y1) div 8 < hb"
      using div8_bound [OF x2] by (simp_all add: hb_def)
    have "int i = x1 * hb + (h - 1 - y1) div 8" using i b x hb0 by auto
    then have "int i mod hb = (h - 1 - y1) div 8" using idx_mod [OF b] by simp
    moreover have "int k = (h - 1 - y1) mod 8" using k by auto
    ultimately have "(int i mod hb) * 8 + int k = h - 1 - y1" by simp
    then show ?thesis using x2 by simp
  qed
  have wf: "wf_bitmap out h w"
    unfolding wf_bitmap_def using out(2) m0 pad by (auto simp: hb_def)
  have pix: "pixel_hmsb out h x y = pixel_hmsb buf w y (h - 1 - x)"
    if "0 \<le> x" "x < h" "0 \<le> y" "y < w" for x y
  proof -
    have xb: "0 \<le> x div 8" "x div 8 < hb" using div8_bound [OF that(1,2)] by (simp_all add: hb_def)
    have i: "0 \<le> y * hb + x div 8" "y * hb + x div 8 < w * hb"
      using idx_bound [OF that(3,4) xb] by auto
    then have lt: "nat (y * hb + x div 8) < nat (hb * w)" by (simp add: mult.commute)
    have "bit (out ! nat (y * hb + x div 8)) (nat (x mod 8)) \<longleftrightarrow>
            bit (buf ! nat ((h - 1 - x) * wb + y div 8)) (nat (y mod 8))" (is "?L \<longleftrightarrow> ?R")
    proof
      assume ?L
      with bits [OF lt, of "nat (x mod 8)"]
      have "\<exists>y1\<in>{0..<h}. \<exists>x1\<in>{0..<w}.
                  nat (x1 * hb + (h - 1 - y1) div 8) = nat (y * hb + x div 8) \<and>
                  nat ((h - 1 - y1) mod 8) = nat (x mod 8) \<and>
                  bit (buf ! nat (y1 * wb + x1 div 8)) (nat (x1 mod 8))"
        by (rule iffD1)
      then obtain y1 x1 where y1: "0 \<le> y1" "y1 < h" and x1: "0 \<le> x1" "x1 < w"
        and e1: "nat (x1 * hb + (h - 1 - y1) div 8) = nat (y * hb + x div 8)"
        and e2: "nat ((h - 1 - y1) mod 8) = nat (x mod 8)"
        and b: "bit (buf ! nat (y1 * wb + x1 div 8)) (nat (x1 mod 8))"
        unfolding Bex_def atLeastLessThan_iff by blast
      have x2: "0 \<le> h - 1 - y1" "h - 1 - y1 < h" using y1 by auto
      have x2b: "0 \<le> (h - 1 - y1) div 8" "(h - 1 - y1) div 8 < hb"
        using div8_bound [OF x2] by (simp_all add: hb_def)
      have "0 \<le> x1 * hb + (h - 1 - y1) div 8" using x1 hb0 x2b by simp
      with e1 i(1) have "x1 * hb + (h - 1 - y1) div 8 = y * hb + x div 8" by linarith
      from idx_inj [OF x2b xb this] have xy: "x1 = y" and d: "(h - 1 - y1) div 8 = x div 8"
        by simp_all
      from e2 have m: "(h - 1 - y1) mod 8 = x mod 8" by (simp add: nat_eq_iff)
      have "h - 1 - y1 = x" using d m by (rule divmod8_inj)
      then have "y1 = h - 1 - x" by simp
      with b xy show ?R by simp
    next
      assume ?R
      have m: "h - 1 - x \<in> {0..<h}" "y \<in> {0..<w}" using that by auto
      have e: "h - 1 - (h - 1 - x) = x" by simp
      have "\<exists>y1\<in>{0..<h}. \<exists>x1\<in>{0..<w}.
                  nat (x1 * hb + (h - 1 - y1) div 8) = nat (y * hb + x div 8) \<and>
                  nat ((h - 1 - y1) mod 8) = nat (x mod 8) \<and>
                  bit (buf ! nat (y1 * wb + x1 div 8)) (nat (x1 mod 8))"
        by (rule bexI [OF _ m(1)], rule bexI [OF _ m(2)]) (simp only: e \<open>?R\<close> simp_thms)
      then show ?L by (rule bits [OF lt, of "nat (x mod 8)", THEN iffD2])
    qed
    then show ?thesis by (simp add: pixel_hmsb_eq wb_def hb_def)
  qed
  show ?thesis using out(1) wf pix by blast
qed

section \<open>Row-major to page-major packing\<close>

lemma buf_hmsb_to_vlsb_bits:
  assumes "0 \<le> w" "0 \<le> h" "get_byte_size w * h \<le> int (length buf)"
  shows "\<exists>out. buf_hmsb_to_vlsb buf w h = Inr out \<and> length out = nat (get_byte_size h * w) \<and>
           (\<forall>i<nat (get_byte_size h * w). \<forall>k. bit (out ! i) k \<longleftrightarrow>
              (\<exists>y1\<in>{0..<h}. \<exists>x1\<in>{0..<w}.
                  nat (y1 div 8 * w + x1) = i \<and> nat (y1 mod 8) = k \<and>
                  bit (buf ! nat (y1 * get_byte_size w + x1 div 8)) (nat (x1 mod 8))))"
proof -
  define wb where "wb = get_byte_size w"
  define hb where "hb = get_byte_size h"
  define n where "n = nat (hb * w)"
  have hb0: "0 \<le> hb" using assms by (simp add: hb_def get_byte_size_eq)
  have m0: "0 \<le> hb * w" using hb0 assms by simp
  define item where "item y1 x1 = (nat (y1 * wb + x1 div 8), nat (x1 mod 8), nat (y1 div 8 * w + x1), nat (y1 mod 8))" for y1 x1 :: int
  have body: "scatters n buf (or_bit buf (y1 * wb + drop_bit 3 x1) (x1 AND 7) (drop_bit 3 y1 * w + x1) (y1 AND 7)) {item y1 x1}"
    if "y1 \<in> set (range h)" "x1 \<in> set (range w)" for y1 x1
  proof -
    have y: "0 \<le> y1" "y1 < h" and x: "0 \<le> x1" "x1 < w" using that by (auto simp: set_range)
    have 1: "0 \<le> y1 * wb + x1 div 8" "y1 * wb + x1 div 8 < int (length buf)"
      using idx_bound [OF y div8_bound [OF x]] assms(3) by (auto simp: wb_def mult.commute)
    have 2: "0 \<le> y1 div 8 * w + x1" "y1 div 8 * w + x1 < int n"
      using idx_bound [OF div8_bound [OF y] x] m0 by (auto simp: hb_def n_def mult.commute)
    have "scatters n buf (or_bit buf (y1 * wb + x1 div 8) (x1 mod 8) (y1 div 8 * w + x1) (y1 mod 8))
            {(nat (y1 * wb + x1 div 8), nat (x1 mod 8), nat (y1 div 8 * w + x1), nat (y1 mod 8))}"
      by (rule scatters_or_bit) (use 1 2 in auto)
    then show ?thesis by (simp add: and_7_int drop_bit_3_int item_def)
  qed
  have inner: "scatters n buf (for_each (\<lambda>x1. or_bit buf (y1 * wb + drop_bit 3 x1) (x1 AND 7) (drop_bit 3 y1 * w + x1) (y1 AND 7)) (range w))
                 (\<Union>x1\<in>set (range w). {item y1 x1})"
    if "y1 \<in> set (range h)" for y1
    by (rule scatters_for_each) (rule body [OF that])
  have outer: "scatters n buf (for_each (\<lambda>y1. for_each (\<lambda>x1. or_bit buf (y1 * wb + drop_bit 3 x1) (x1 AND 7) (drop_bit 3 y1 * w + x1) (y1 AND 7)) (range w)) (range h))
                 (\<Union>y1\<in>set (range h). \<Union>x1\<in>set (range w). {item y1 x1})"
    by (rule scatters_for_each) (rule inner)
  from scatters_result [OF outer [unfolded n_def] m0]
  obtain out where out: "buf_hmsb_to_vlsb buf w h = Inr out" "length out = nat (hb * w)"
    and bits: "\<forall>i<nat (hb * w). \<forall>k. bit (out ! i) k \<longleftrightarrow>
      (\<exists>it\<in>(\<Union>y1\<in>set (range h). \<Union>x1\<in>set (range w). {item y1 x1}).
         fst (snd (snd it)) = i \<and> snd (snd (snd it)) = k \<and> bit (buf ! fst it) (fst (snd it)))"
    unfolding buf_hmsb_to_vlsb_def Let_def wb_def [symmetric] hb_def [symmetric] by blast
  have "bit (out ! i) k \<longleftrightarrow>
      (\<exists>y1\<in>{0..<h}. \<exists>x1\<in>{0..<w}.
          nat (y1 div 8 * w + x1) = i \<and> nat (y1 mod 8) = k \<and>
          bit (buf ! nat (y1 * wb + x1 div 8)) (nat (x1 mod 8)))"
    if "i < nat (hb * w)" for i k
    using bits that unfolding set_range item_def by simp
  then show ?thesis using out unfolding wb_def hb_def by blast
qed

text \<open>
  Claim C5: for a row-major bitmap of width \<open>w\<close> and height \<open>h\<close>, \<open>h\<close> a multiple
  of 8, of \<open>ceil(w / 8) * h\<close> bytes, \<^verbatim>\<open>buf_hmsb_to_vlsb\<close> returns a buffer of
  \<open>ceil(h / 8) * w\<close> bytes in which, for every pixel \<open>(x, y)\<close> of the bitmap, bit
  \<open>y mod 8\<close> of the byte at \<open>(y div 8) * w + x\<close> is bit \<open>x mod 8\<close> of the input byte at
  \<open>y * ceil(w / 8) + x div 8\<close>.
\<close>

theorem buf_hmsb_to_vlsb_layout:
  assumes "0 \<le> w" "0 \<le> h" "h mod 8 = 0" "int (length buf) = (w + 7) div 8 * h"
  shows "\<exists>out. buf_hmsb_to_vlsb buf w h = Inr out \<and>
           int (length out) = (h + 7) div 8 * w \<and>
           (\<forall>x y. 0 \<le> x \<and> x < w \<and> 0 \<le> y \<and> y < h \<longrightarrow>
              bit (out ! nat (y div 8 * w + x)) (nat (y mod 8))
                = bit (buf ! nat (y * ((w + 7) div 8) + x div 8)) (nat (x mod 8)))"
proof -
  define wb where "wb = get_byte_size w"
  define hb where "hb = get_byte_size h"
  have wb: "wb = (w + 7) div 8" and hb: "hb = (h + 7) div 8"
    by (simp_all add: wb_def hb_def get_byte_size_eq)
  have hb0: "0 \<le> hb" using assms by (simp add: hb)
  have m0: "0 \<le> hb * w" using hb0 assms by simp
  have len: "get_byte_size w * h \<le> int (length buf)" using assms(4) by (simp add: get_byte_size_eq)
  from buf_hmsb_to_vlsb_bits [OF assms(1,2) len]
  obtain out where out: "buf_hmsb_to_vlsb buf w h = Inr out" "length out = nat (hb * w)"
    and bits: "\<And>i k. i < nat (hb * w) \<Longrightarrow> bit (out ! i) k \<longleftrightarrow>
              (\<exists>y1\<in>{0..<h}. \<exists>x1\<in>{0..<w}.
                  nat (y1 div 8 * w + x1) = i \<and> nat (y1 mod 8) = k \<and>
                  bit (buf ! nat (y1 * wb + x1 div 8)) (nat (x1 mod 8)))"
    unfolding wb_def hb_def by blast
  have pix: "bit (out ! nat (y div 8 * w + x)) (nat (y mod 8))
                = bit (buf ! nat (y * wb + x div 8)) (nat (x mod 8))"
    if "0 \<le> x" "x < w" "0 \<le> y" "y < h" for x y
  proof -
    have yb: "0 \<le> y div 8" "y div 8 < hb" using div8_bound [OF that(3,4)] by (simp_all add: hb_def)
    have i: "0 \<le> y div 8 * w + x" "y div 8 * w + x < hb * w"
      using idx_bound [OF yb that(1,2)] by auto
    then have lt: "nat (y div 8 * w + x) < nat (hb * w)" by simp
    show ?thesis
    proof
      assume "bit (out ! nat (y div 8 * w + x)) (nat (y mod 8))"
      with bits [OF lt, of "nat (y mod 8)"]
      have "\<exists>y1\<in>{0..<h}. \<exists>x1\<in>{0..<w}.
                  nat (y1 div 8 * w + x1) = nat (y div 8 * w + x) \<and> nat (y1 mod 8) = nat (y mod 8) \<and>
                  bit (buf ! nat (y1 * wb + x1 div 8)) (nat (x1 mod 8))"
        by (rule iffD1)
      then obtain y1 x1 where y1: "0 \<le> y1" "y1 < h" and x1: "0 \<le> x1" "x1 < w"
        and e1: "nat (y1 div 8 * w + x1) = nat (y div 8 * w + x)"
        and e2: "nat (y1 mod 8) = nat (y mod 8)"
        and b: "bit (buf ! nat (y1 * wb + x1 div 8)) (nat (x1 mod 8))"
        unfolding Bex_def atLeastLessThan_iff by blast
      have "0 \<le> y1 div 8" using y1 by simp
      then have "0 \<le> y1 div 8 * w + x1" using x1 assms(1) by simp
      with e1 i(1) have "y1 div 8 * w + x1 = y div 8 * w + x" by linarith
      from idx_inj [OF x1 that(1,2) this] have xx: "x1 = x" and d: "y1 div 8 = y div 8"
        by simp_all
      from e2 have m: "y1 mod 8 = y mod 8" by (simp add: nat_eq_iff)
      have "y1 = y" using d m by (rule divmod8_inj)
      with b xx show "bit (buf ! nat (y * wb + x div 8)) (nat (x mod 8))" by simp
    next
      assume R: "bit (buf ! nat (y * wb + x div 8)) (nat (x mod 8))"
      have m: "y \<in> {0..<h}" "x \<in> {0..<w}" using that by auto
      have "\<exists>y1\<in>{0..<h}. \<exists>x1\<in>{0..<w}.
                  nat (y1 div 8 * w + x1) = nat (y div 8 * w + x) \<and> nat (y1 mod 8) = nat (y mod 8) \<and>
                  bit (buf ! nat (y1 * wb + x1 div 8)) (nat (x1 mod 8))"
        by (rule bexI [OF _ m(1)], rule bexI [OF _ m(2)]) (simp only: R simp_thms)
      then show "bit (out ! nat (y div 8 * w + x)) (nat (y mod 8))"
        by (rule bits [OF lt, of "nat (y mod 8)", THEN iffD2])
    qed
  qed
  have "int (length out) = (h + 7) div 8 * w" using out(2) m0 by (simp add: hb)
  with out(1) pix show ?thesis unfolding wb by blast
qed

text \<open>
  Claim C5 on an 8 by 8 bitmap, at the pixel \<open>(1, 2)\<close>.
\<close>

theorem buf_hmsb_to_vlsb_layout_witness:
  "buf_hmsb_to_vlsb [1, 2, 3, 4, 5, 6, 7, 8] 8 8 = Inr [85, 102, 120, 128, 0, 0, 0, 0] \<and>
   bit ([85, 102, 120, 128, 0, 0, 0, 0 :: byte] ! nat (2 div 8 * 8 + 1)) (nat (2 mod 8))
     = bit ([1, 2, 3, 4, 5, 6, 7, 8 :: byte] ! nat (2 * ((8 + 7) div 8) + 1 div 8)) (nat (1 mod 8))"
proof -
  have e: "buf_hmsb_to_vlsb [1, 2, 3, 4, 5, 6, 7, 8] 8 8 = Inr [85, 102, 120, 128, 0, 0, 0, 0]"
    by code_simp
  from buf_hmsb_to_vlsb_layout [of 8 8 "[1, 2, 3, 4, 5, 6, 7, 8]"]
  obtain out where "buf_hmsb_to_vlsb [1, 2, 3, 4, 5, 6, 7, 8] 8 8 = Inr out"
    and "\<forall>x y. 0 \<le> x \<and> x < 8 \<and> 0 \<le> y \<and> y < 8 \<longrightarrow>
              bit (out ! nat (y div 8 * 8 + x)) (nat (y mod 8))
                = bit ([1, 2, 3, 4, 5, 6, 7, 8 :: byte] ! nat (y * ((8 + 7) div 8) + x div 8)) (nat (x mod 8))"
    by auto
  with e show ?thesis by (metis (no_types, lifting) Inr_inject zero_le_numeral zero_le_one one_less_numeral_iff numeral_less_iff semiring_norm(76,78))
qed


section \<open>The horizontal mirror\<close>

lemma mirror_horizontal_bits:
  assumes "0 \<le> w" "0 \<le> h" "get_byte_size w * h \<le> int (length buf)"
  shows "\<exists>out. mirror_horizontal buf w h = Inr out \<and> length out = nat (get_byte_size w * h) \<and>
           (\<forall>i<nat (get_byte_size w * h). \<forall>k. bit (out ! i) k \<longleftrightarrow>
              (\<exists>y1\<in>{0..<h}. \<exists>x1\<in>{0..<w div 2}.
                  (nat (y1 * get_byte_size w + x1 div 8) = i \<and> nat (x1 mod 8) = k \<and>
                   bit (buf ! nat (y1 * get_byte_size w + (w - 1 - x1) div 8)) (nat ((w - 1 - x1) mod 8))) \<or>
                  (nat (y1 * get_byte_size w + (w - 1 - x1) div 8) = i \<and> nat ((w - 1 - x1) mod 8) = k \<and>
                   bit (buf ! nat (y1 * get_byte_size w + x1 div 8)) (nat (x1 mod 8)))))"
proof -
  define wb where "wb = get_byte_size w"
  define n where "n = nat (wb * h)"
  have wb0: "0 \<le> wb" using assms by (simp add: wb_def get_byte_size_eq)
  have m0: "0 \<le> wb * h" using wb0 assms by simp
  define itemA where "itemA y1 x1 = (nat (y1 * wb + x1 div 8), nat (x1 mod 8), nat (y1 * wb + (w - 1 - x1) div 8), nat ((w - 1 - x1) mod 8))" for y1 x1 :: int
  define itemB where "itemB y1 x1 = (nat (y1 * wb + (w - 1 - x1) div 8), nat ((w - 1 - x1) mod 8), nat (y1 * wb + x1 div 8), nat (x1 mod 8))" for y1 x1 :: int
  have body: "scatters n buf (\<lambda>b2. case or_bit buf (y1 * wb + drop_bit 3 x1) (x1 AND 7) (y1 * wb + drop_bit 3 (w - 1 - x1)) ((w - 1 - x1) AND 7) b2 of
                      Inl e \<Rightarrow> Inl e
                    | Inr b3 \<Rightarrow> or_bit buf (y1 * wb + drop_bit 3 (w - 1 - x1)) ((w - 1 - x1) AND 7) (y1 * wb + drop_bit 3 x1) (x1 AND 7) b3)
                 ({itemA y1 x1} \<union> {itemB y1 x1})"
    if "y1 \<in> set (range h)" "x1 \<in> set (range (w div 2))" for y1 x1
  proof -
    have y: "0 \<le> y1" "y1 < h" and x: "0 \<le> x1" "x1 < w" using that assms(1) by (auto simp: set_range)
    have x2: "0 \<le> w - 1 - x1" "w - 1 - x1 < w" using x by auto
    have 1: "0 \<le> y1 * wb + x1 div 8" "y1 * wb + x1 div 8 < int (length buf)" "y1 * wb + x1 div 8 < int n"
      using idx_bound [OF y div8_bound [OF x]] assms(3) m0 by (auto simp: wb_def n_def mult.commute)
    have 2: "0 \<le> y1 * wb + (w - 1 - x1) div 8" "y1 * wb + (w - 1 - x1) div 8 < int (length buf)"
      "y1 * wb + (w - 1 - x1) div 8 < int n"
      using idx_bound [OF y div8_bound [OF x2]] assms(3) m0 by (auto simp: wb_def n_def mult.commute)
    have A: "scatters n buf (or_bit buf (y1 * wb + x1 div 8) (x1 mod 8) (y1 * wb + (w - 1 - x1) div 8) ((w - 1 - x1) mod 8))
            {(nat (y1 * wb + x1 div 8), nat (x1 mod 8), nat (y1 * wb + (w - 1 - x1) div 8), nat ((w - 1 - x1) mod 8))}"
      by (rule scatters_or_bit) (use 1 2 in auto)
    have B: "scatters n buf (or_bit buf (y1 * wb + (w - 1 - x1) div 8) ((w - 1 - x1) mod 8) (y1 * wb + x1 div 8) (x1 mod 8))
            {(nat (y1 * wb + (w - 1 - x1) div 8), nat ((w - 1 - x1) mod 8), nat (y1 * wb + x1 div 8), nat (x1 mod 8))}"
      by (rule scatters_or_bit) (use 1 2 in auto)
    from scatters_seq [OF A B] show ?thesis
      by (simp only: and_7_int drop_bit_3_int itemA_def itemB_def)
  qed
  have inner: "scatters n buf (for_each (\<lambda>x1 b2. case or_bit buf (y1 * wb + drop_bit 3 x1) (x1 AND 7) (y1 * wb + drop_bit 3 (w - 1 - x1)) ((w - 1 - x1) AND 7) b2 of
                      Inl e \<Rightarrow> Inl e
                    | Inr b3 \<Rightarrow> or_bit buf (y1 * wb + drop_bit 3 (w - 1 - x1)) ((w - 1 - x1) AND 7) (y1 * wb + drop_bit 3 x1) (x1 AND 7) b3) (range (w div 2)))
                 (\<Union>x1\<in>set (range (w div 2)). {itemA y1 x1} \<union> {itemB y1 x1})"
    if "y1 \<in> set (range h)" for y1
    by (rule scatters_for_each) (rule body [OF that])
  have outer: "scatters n buf (for_each (\<lambda>y1. for_each (\<lambda>x1 b2. case or_bit buf (y1 * wb + drop_bit 3 x1) (x1 AND 7) (y1 * wb + drop_bit 3 (w - 1 - x1)) ((w - 1 - x1) AND 7) b2 of
                      Inl e \<Rightarrow> Inl e
                    | Inr b3 \<Rightarrow> or_bit buf (y1 * wb + drop_bit 3 (w - 1 - x1)) ((w - 1 - x1) AND 7) (y1 * wb + drop_bit 3 x1) (x1 AND 7) b3) (range (w div 2))) (range h))
                 (\<Union>y1\<in>set (range h). \<Union>x1\<in>set (range (w div 2)). {itemA y1 x1} \<union> {itemB y1 x1})"
    by (rule scatters_for_each) (rule inner)
  from scatters_result [OF outer [unfolded n_def] m0]
  obtain out where out: "mirror_horizontal buf w h = Inr out" "length out = nat (wb * h)"
    and bits: "\<forall>i<nat (wb * h). \<forall>k. bit (out ! i) k \<longleftrightarrow>
      (\<exists>it\<in>(\<Union>y1\<in>set (range h). \<Union>x1\<in>set (range (w div 2)). {itemA y1 x1} \<union> {itemB y1 x1}).
         fst (snd (snd it)) = i \<and> snd (snd (snd it)) = k \<and> bit (buf ! fst it) (fst (snd it)))"
    unfolding mirror_horizontal_def Let_def wb_def [symmetric] by blast
  have "bit (out ! i) k \<longleftrightarrow>
      (\<exists>y1\<in>{0..<h}. \<exists>x1\<in>{0..<w div 2}.
                  (nat (y1 * wb + x1 div 8) = i \<and> nat (x1 mod 8) = k \<and>
                   bit (buf ! nat (y1 * wb + (w - 1 - x1) div 8)) (nat ((w - 1 - x1) mod 8))) \<or>
                  (nat (y1 * wb + (w - 1 - x1) div 8) = i \<and> nat ((w - 1 - x1) mod 8) = k \<and>
                   bit (buf ! nat (y1 * wb + x1 div 8)) (nat (x1 mod 8))))"
    if "i < nat (wb * h)" for i k
    using bits that unfolding set_range itemA_def itemB_def by simp
  then show ?thesis using out unfolding wb_def by blast
qed

lemma byte_location:
  assumes "0 \<le> c" "c < w" "0 \<le> y"
  shows "int (nat (y * get_byte_size w + c div 8)) mod get_byte_size w = c div 8"
    and "int (nat (y * get_byte_size w + c div 8)) div get_byte_size w = y"
    and "int (nat (c mod 8)) = c mod 8"
proof -
  have b: "0 \<le> c div 8" "c div 8 < get_byte_size w" using div8_bound [OF assms(1,2)] .
  then have wb: "0 < get_byte_size w" by linarith
  have n: "0 \<le> y * get_byte_size w + c div 8" using b wb assms(3) by simp
  show "int (nat (y * get_byte_size w + c div 8)) mod get_byte_size w = c div 8"
    using n idx_mod [OF b] by simp
  have "(c div 8 + y * get_byte_size w) div get_byte_size w = c div 8 div get_byte_size w + y"
    using wb by simp
  moreover have "c div 8 div get_byte_size w = 0" using b by (simp add: div_pos_pos_trivial)
  ultimately show "int (nat (y * get_byte_size w + c div 8)) div get_byte_size w = y"
    using n by (simp add: add.commute)
  show "int (nat (c mod 8)) = c mod 8" by simp
qed

lemma byte_location_inj:
  assumes "0 \<le> c" "c < w" "0 \<le> y" "0 \<le> c'" "c' < w" "0 \<le> y'"
    and "nat (y * get_byte_size w + c div 8) = nat (y' * get_byte_size w + c' div 8)"
    and "nat (c mod 8) = nat (c' mod 8)"
  shows "y = y'" and "c = c'"
proof -
  show "y = y'"
    using byte_location(2) [OF assms(1-3)] byte_location(2) [OF assms(4-6)] assms(7) by simp
  have "c div 8 = c' div 8"
    using byte_location(1) [OF assms(1-3)] byte_location(1) [OF assms(4-6)] assms(7) by simp
  moreover have "c mod 8 = c' mod 8" using assms(8) by (simp add: nat_eq_iff)
  ultimately show "c = c'" by (rule divmod8_inj)
qed

lemma byte_location_column:
  assumes "0 \<le> c" "c < w" "0 \<le> y"
  shows "int (nat (y * get_byte_size w + c div 8)) mod get_byte_size w * 8 + int (nat (c mod 8)) = c"
  using byte_location(1) [OF assms] by simp

lemma mirror_horizontal_spec:
  assumes "0 \<le> w" "0 \<le> h" "get_byte_size w * h \<le> int (length buf)"
  shows "\<exists>out. mirror_horizontal buf w h = Inr out \<and> wf_bitmap out w h \<and>
           (\<forall>x y. 0 \<le> x \<and> x < w \<and> 0 \<le> y \<and> y < h \<longrightarrow>
                  pixel_hmsb out w x y = (2 * x \<noteq> w - 1 \<and> pixel_hmsb buf w (w - 1 - x) y))"
proof -
  define wb where "wb = get_byte_size w"
  have wb0: "0 \<le> wb" using assms by (simp add: wb_def get_byte_size_eq)
  have m0: "0 \<le> wb * h" using wb0 assms by simp
  from mirror_horizontal_bits [OF assms]
  obtain out where out: "mirror_horizontal buf w h = Inr out" "length out = nat (wb * h)"
    and bits: "\<And>i k. i < nat (wb * h) \<Longrightarrow> bit (out ! i) k \<longleftrightarrow>
              (\<exists>y1\<in>{0..<h}. \<exists>x1\<in>{0..<w div 2}.
                  (nat (y1 * wb + x1 div 8) = i \<and> nat (x1 mod 8) = k \<and>
                   bit (buf ! nat (y1 * wb + (w - 1 - x1) div 8)) (nat ((w - 1 - x1) mod 8))) \<or>
                  (nat (y1 * wb + (w - 1 - x1) div 8) = i \<and> nat ((w - 1 - x1) mod 8) = k \<and>
                   bit (buf ! nat (y1 * wb + x1 div 8)) (nat (x1 mod 8))))"
    unfolding wb_def by blast
  have half: "0 \<le> x1 \<and> x1 < w \<and> 0 \<le> w - 1 - x1 \<and> w - 1 - x1 < w \<and> 2 * x1 \<noteq> w - 1 \<and> 2 * (w - 1 - x1) \<noteq> w - 1"
    if "0 \<le> x1" "x1 < w div 2" for x1
    using that assms(1) by auto
  have pad: "(int i mod wb) * 8 + int k < w" if "i < length out" "bit (out ! i) k" for i k
  proof -
    from bits [of i k] that out(2)
    have "\<exists>y1\<in>{0..<h}. \<exists>x1\<in>{0..<w div 2}.
                  (nat (y1 * wb + x1 div 8) = i \<and> nat (x1 mod 8) = k \<and>
                   bit (buf ! nat (y1 * wb + (w - 1 - x1) div 8)) (nat ((w - 1 - x1) mod 8))) \<or>
                  (nat (y1 * wb + (w - 1 - x1) div 8) = i \<and> nat ((w - 1 - x1) mod 8) = k \<and>
                   bit (buf ! nat (y1 * wb + x1 div 8)) (nat (x1 mod 8)))"
      by simp
    then obtain y1 x1 where y1: "0 \<le> y1" "y1 < h" and x1: "0 \<le> x1" "x1 < w div 2"
      and c: "(nat (y1 * wb + x1 div 8) = i \<and> nat (x1 mod 8) = k) \<or>
              (nat (y1 * wb + (w - 1 - x1) div 8) = i \<and> nat ((w - 1 - x1) mod 8) = k)"
      unfolding Bex_def atLeastLessThan_iff by blast
    from half [OF x1] have h1: "0 \<le> x1" "x1 < w" and h2: "0 \<le> w - 1 - x1" "w - 1 - x1 < w"
      by simp_all
    from c show ?thesis
    proof
      assume "nat (y1 * wb + x1 div 8) = i \<and> nat (x1 mod 8) = k"
      then show ?thesis
        using byte_location_column [OF h1 y1(1)] h1 unfolding wb_def by auto
    next
      assume "nat (y1 * wb + (w - 1 - x1) div 8) = i \<and> nat ((w - 1 - x1) mod 8) = k"
      then show ?thesis
        using byte_location_column [OF h2 y1(1)] h2 unfolding wb_def by auto
    qed
  qed
  have wf: "wf_bitmap out w h"
    unfolding wf_bitmap_def wb_def [symmetric]
  proof (intro conjI allI impI)
    show "int (length out) = wb * h" using out(2) m0 by simp
    show "int i mod wb * 8 + int k < w" if "i < length out" "k < 8" "bit (out ! i) k" for i k
      using pad that by blast
  qed
  have pix: "pixel_hmsb out w x y = (2 * x \<noteq> w - 1 \<and> pixel_hmsb buf w (w - 1 - x) y)"
    if xy: "0 \<le> x" "x < w" "0 \<le> y" "y < h" for x y
  proof -
    have xb: "0 \<le> x div 8" "x div 8 < wb" using div8_bound [OF xy(1,2)] by (simp_all add: wb_def)
    have i: "0 \<le> y * wb + x div 8" "y * wb + x div 8 < h * wb"
      using idx_bound [OF xy(3,4) xb] by auto
    then have lt: "nat (y * wb + x div 8) < nat (wb * h)" by (simp add: mult.commute)
    have x': "0 \<le> w - 1 - x" "w - 1 - x < w" using xy by auto
    have "bit (out ! nat (y * wb + x div 8)) (nat (x mod 8)) \<longleftrightarrow>
            2 * x \<noteq> w - 1 \<and> bit (buf ! nat (y * wb + (w - 1 - x) div 8)) (nat ((w - 1 - x) mod 8))"
      (is "?L \<longleftrightarrow> ?C \<and> ?R")
    proof
      assume ?L
      with bits [OF lt, of "nat (x mod 8)"]
      have "\<exists>y1\<in>{0..<h}. \<exists>x1\<in>{0..<w div 2}.
                  (nat (y1 * wb + x1 div 8) = nat (y * wb + x div 8) \<and> nat (x1 mod 8) = nat (x mod 8) \<and>
                   bit (buf ! nat (y1 * wb + (w - 1 - x1) div 8)) (nat ((w - 1 - x1) mod 8))) \<or>
                  (nat (y1 * wb + (w - 1 - x1) div 8) = nat (y * wb + x div 8) \<and> nat ((w - 1 - x1) mod 8) = nat (x mod 8) \<and>
                   bit (buf ! nat (y1 * wb + x1 div 8)) (nat (x1 mod 8)))"
        by (rule iffD1)
      then obtain y1 x1 where y1: "0 \<le> y1" "y1 < h" and x1: "0 \<le> x1" "x1 < w div 2"
        and c: "(nat (y1 * wb + x1 div 8) = nat (y * wb + x div 8) \<and> nat (x1 mod 8) = nat (x mod 8) \<and>
                   bit (buf ! nat (y1 * wb + (w - 1 - x1) div 8)) (nat ((w - 1 - x1) mod 8))) \<or>
                  (nat (y1 * wb + (w - 1 - x1) div 8) = nat (y * wb + x div 8) \<and> nat ((w - 1 - x1) mod 8) = nat (x mod 8) \<and>
                   bit (buf ! nat (y1 * wb + x1 div 8)) (nat (x1 mod 8)))"
        unfolding Bex_def atLeastLessThan_iff by blast
      from half [OF x1] have h1: "0 \<le> x1" "x1 < w" and h2: "0 \<le> w - 1 - x1" "w - 1 - x1 < w"
        and ne: "2 * x1 \<noteq> w - 1" "2 * (w - 1 - x1) \<noteq> w - 1"
        by simp_all
      from c show "?C \<and> ?R"
      proof
        assume a: "nat (y1 * wb + x1 div 8) = nat (y * wb + x div 8) \<and> nat (x1 mod 8) = nat (x mod 8) \<and>
                   bit (buf ! nat (y1 * wb + (w - 1 - x1) div 8)) (nat ((w - 1 - x1) mod 8))"
        have "y1 = y" "x1 = x"
          using byte_location_inj [OF h1 y1(1) xy(1,2,3)] a unfolding wb_def by blast+
        with a ne show ?thesis by simp
      next
        assume a: "nat (y1 * wb + (w - 1 - x1) div 8) = nat (y * wb + x div 8) \<and> nat ((w - 1 - x1) mod 8) = nat (x mod 8) \<and>
                   bit (buf ! nat (y1 * wb + x1 div 8)) (nat (x1 mod 8))"
        have "y1 = y" "w - 1 - x1 = x"
          using byte_location_inj [OF h2 y1(1) xy(1,2,3)] a unfolding wb_def by blast+
        then have "y1 = y" "x1 = w - 1 - x" by simp_all
        with a ne show ?thesis by auto
      qed
    next
      assume CR: "?C \<and> ?R"
      have my: "y \<in> {0..<h}" using xy by simp
      have "\<exists>y1\<in>{0..<h}. \<exists>x1\<in>{0..<w div 2}.
                  (nat (y1 * wb + x1 div 8) = nat (y * wb + x div 8) \<and> nat (x1 mod 8) = nat (x mod 8) \<and>
                   bit (buf ! nat (y1 * wb + (w - 1 - x1) div 8)) (nat ((w - 1 - x1) mod 8))) \<or>
                  (nat (y1 * wb + (w - 1 - x1) div 8) = nat (y * wb + x div 8) \<and> nat ((w - 1 - x1) mod 8) = nat (x mod 8) \<and>
                   bit (buf ! nat (y1 * wb + x1 div 8)) (nat (x1 mod 8)))"
      proof (cases "x < w div 2")
        case True
        then have mx: "x \<in> {0..<w div 2}" using xy by simp
        show ?thesis
          by (rule bexI [OF _ my], rule bexI [OF _ mx], rule disjI1) (simp only: CR simp_thms)
      next
        case False
        then have mx: "w - 1 - x \<in> {0..<w div 2}" using xy CR by auto
        have e: "w - 1 - (w - 1 - x) = x" by simp
        show ?thesis
          by (rule bexI [OF _ my], rule bexI [OF _ mx], rule disjI2) (simp only: e CR simp_thms)
      qed
      then show ?L by (rule bits [OF lt, of "nat (x mod 8)", THEN iffD2])
    qed
    then show ?thesis by (simp add: pixel_hmsb_eq wb_def)
  qed
  show ?thesis using out(1) wf pix by blast
qed


section \<open>Bitmaps that agree on every pixel\<close>

lemma bitmap_byte_pixel:
  assumes "0 \<le> w" "int (length a) = get_byte_size w * h" "i < length a" "k < 8"
  shows "0 \<le> int i div get_byte_size w" and "int i div get_byte_size w < h"
    and "0 \<le> int i mod get_byte_size w * 8 + int k"
    and "int i mod get_byte_size w * 8 + int k < w \<Longrightarrow>
           pixel_hmsb a w (int i mod get_byte_size w * 8 + int k) (int i div get_byte_size w) = bit (a ! i) k"
proof -
  define wb where "wb = get_byte_size w"
  have wb0: "0 \<le> wb" using assms(1) by (simp add: wb_def get_byte_size_eq)
  have lt: "int i < wb * h" using assms(2,3) by (simp add: wb_def)
  have wbp: "0 < wb"
  proof (rule ccontr)
    assume "\<not> 0 < wb"
    with wb0 have "wb = 0" by simp
    with lt show False by simp
  qed
  show "0 \<le> int i div get_byte_size w" using wbp by (simp add: wb_def [symmetric] pos_imp_zdiv_nonneg_iff)
  have "int i div wb < h"
  proof (rule ccontr)
    assume "\<not> int i div wb < h"
    then have "h \<le> int i div wb" by simp
    then have "wb * h \<le> wb * (int i div wb)" using wbp by simp
    also have "\<dots> \<le> int i"
    proof -
      have "wb * (int i div wb) + int i mod wb = int i" by simp
      moreover have "0 \<le> int i mod wb" using wbp by simp
      ultimately show ?thesis by linarith
    qed
    finally show False using lt by simp
  qed
  then show "int i div get_byte_size w < h" by (simp add: wb_def)
  have m: "0 \<le> int i mod wb" using wbp by simp
  then show "0 \<le> int i mod get_byte_size w * 8 + int k" by (simp add: wb_def)
  show "pixel_hmsb a w (int i mod get_byte_size w * 8 + int k) (int i div get_byte_size w) = bit (a ! i) k"
    if "int i mod get_byte_size w * 8 + int k < w"
  proof -
    have k: "int k < 8" using assms(4) by simp
    have d: "(int i mod wb * 8 + int k) div 8 = int i mod wb"
      using k by simp
    have r: "(int i mod wb * 8 + int k) mod 8 = int k"
      using k by simp
    have "int i div wb * wb + int i mod wb = int i" by simp
    then have "nat (int i div wb * wb + (int i mod wb * 8 + int k) div 8) = i"
      by (simp only: d nat_int)
    moreover have "nat ((int i mod wb * 8 + int k) mod 8) = k" by (simp only: r nat_int)
    ultimately show ?thesis
      unfolding pixel_hmsb_eq wb_def [symmetric] by simp
  qed
qed

lemma bitmap_eqI:
  assumes "0 \<le> w" "wf_bitmap a w h" "wf_bitmap b w h"
    and pix: "\<forall>x y. 0 \<le> x \<and> x < w \<and> 0 \<le> y \<and> y < h \<longrightarrow> pixel_hmsb a w x y = pixel_hmsb b w x y"
  shows "a = b"
proof (rule nth_equalityI)
  have la: "int (length a) = get_byte_size w * h" and lb: "int (length b) = get_byte_size w * h"
    using assms(2,3) by (simp_all add: wf_bitmap_def)
  then show len: "length a = length b" by linarith
  fix i assume i: "i < length a"
  then have ib: "i < length b" using len by simp
  show "a ! i = b ! i"
  proof (rule bit_eqI)
    fix k assume "possible_bit TYPE(byte) k"
    then have k: "k < 8" by (simp add: possible_bit_word)
    define c where "c = int i mod get_byte_size w * 8 + int k"
    define y where "y = int i div get_byte_size w"
    show "bit (a ! i) k = bit (b ! i) k"
    proof (cases "c < w")
      case True
      have "pixel_hmsb a w c y = bit (a ! i) k"
        unfolding c_def y_def by (rule bitmap_byte_pixel(4) [OF assms(1) la i k]) (use True in \<open>simp add: c_def\<close>)
      moreover have "pixel_hmsb b w c y = bit (b ! i) k"
        unfolding c_def y_def by (rule bitmap_byte_pixel(4) [OF assms(1) lb ib k]) (use True in \<open>simp add: c_def\<close>)
      moreover have "0 \<le> c" "0 \<le> y" "y < h"
        using bitmap_byte_pixel(1-3) [OF assms(1) la i k] by (simp_all add: c_def y_def)
      ultimately show ?thesis using pix True by blast
    next
      case False
      have "\<not> bit (a ! i) k" using assms(2) i k False unfolding wf_bitmap_def c_def by blast
      moreover have "\<not> bit (b ! i) k" using assms(3) ib k False unfolding wf_bitmap_def c_def by blast
      ultimately show ?thesis by simp
    qed
  qed
qed

lemma wf_bitmap_multiple_of_8:
  assumes "0 \<le> w" "w mod 8 = 0" "int (length buf) = get_byte_size w * h"
  shows "wf_bitmap buf w h"
  unfolding wf_bitmap_def
proof (intro conjI allI impI)
  show "int (length buf) = get_byte_size w * h" by fact
  fix i k assume i: "i < length buf" and k: "k < (8::nat)"
  have w8: "w = 8 * get_byte_size w" using assms(2) by (auto simp: get_byte_size_eq)
  have "0 < get_byte_size w"
  proof (rule ccontr)
    assume "\<not> 0 < get_byte_size w"
    moreover have "0 \<le> get_byte_size w" using assms(1) by (simp add: get_byte_size_eq)
    ultimately have "get_byte_size w = 0" by simp
    with assms(3) i show False by simp
  qed
  then have "int i mod get_byte_size w < get_byte_size w" by simp
  then have "int i mod get_byte_size w * 8 + int k < 8 * get_byte_size w" using k by simp
  then show "int i mod get_byte_size w * 8 + int k < w" using w8 by simp
qed

section \<open>Mirroring and rotating back\<close>

text \<open>
  Claim C3 at a bitmap 3 wide and 1 high whose only lit pixel is the centre one, \<open>(1, 0)\<close>.
  The claim has the output pixel \<open>(x, y)\<close> equal to the input pixel \<open>((w - 1) - x, y)\<close>,
  so the centre column of an odd width is carried over. The loop runs \<open>x1\<close> over
  \<^verbatim>\<open>range(w // 2)\<close> and writes into a buffer of zeros, so the centre column of an odd width
  is never written: the result is all dark. In every other column, and in every column of
  an even width, the output is the mirrored input (\<open>mirror_horizontal_spec\<close>).
\<close>

theorem mirror_horizontal_centre_column:
  "mirror_horizontal [2] 3 1 = Inr [0] \<and> pixel_hmsb [2] 3 1 0 \<and> \<not> pixel_hmsb [0] 3 1 0"
  by code_simp

text \<open>
  Claim C7, as stated, at two concrete inputs: of a bitmap 2 wide and 1 high with the byte
  \<open>0xFF\<close>, two mirrors return \<open>0x03\<close>, since the bits past the width are not copied;
  and of the bitmap 3 wide with only the centre pixel lit, two mirrors return the dark bitmap.
\<close>

theorem mirror_horizontal_twice_counterexample:
  "mirror_horizontal [0xFF] 2 1 = Inr [3] \<and> mirror_horizontal [3] 2 1 = Inr [3] \<and>
   mirror_horizontal [2] 3 1 = Inr [0] \<and> mirror_horizontal [0] 3 1 = Inr [0]"
  by code_simp

text \<open>
  Claim C7, amended: for an even width \<open>w\<close> and a buffer of \<open>get_byte_size w * h\<close>
  bytes, mirroring twice returns normally a buffer of the same length that agrees with the
  original on every pixel \<open>(x, y)\<close> with \<open>0 \<le> x < w\<close> and \<open>0 \<le> y < h\<close>. It is the
  original buffer when the bits past the width are clear in it, in particular whenever
  \<open>w\<close> is a multiple of 8.
\<close>

theorem mirror_horizontal_twice:
  assumes "even w" "0 \<le> w" "0 \<le> h" "int (length buf) = get_byte_size w * h"
  shows "\<exists>m1 m2. mirror_horizontal buf w h = Inr m1 \<and> mirror_horizontal m1 w h = Inr m2 \<and>
           length m2 = length buf \<and>
           (\<forall>x y. 0 \<le> x \<and> x < w \<and> 0 \<le> y \<and> y < h \<longrightarrow> pixel_hmsb m2 w x y = pixel_hmsb buf w x y) \<and>
           (wf_bitmap buf w h \<longrightarrow> m2 = buf) \<and>
           (w mod 8 = 0 \<longrightarrow> m2 = buf)"
proof -
  have len: "get_byte_size w * h \<le> int (length buf)" using assms(4) by simp
  from mirror_horizontal_spec [OF assms(2,3) len]
  obtain m1 where m1: "mirror_horizontal buf w h = Inr m1" "wf_bitmap m1 w h"
    and p1: "\<And>x y. 0 \<le> x \<Longrightarrow> x < w \<Longrightarrow> 0 \<le> y \<Longrightarrow> y < h \<Longrightarrow>
               pixel_hmsb m1 w x y = (2 * x \<noteq> w - 1 \<and> pixel_hmsb buf w (w - 1 - x) y)"
    by blast
  have len1: "get_byte_size w * h \<le> int (length m1)" using m1(2) by (simp add: wf_bitmap_def)
  from mirror_horizontal_spec [OF assms(2,3) len1]
  obtain m2 where m2: "mirror_horizontal m1 w h = Inr m2" "wf_bitmap m2 w h"
    and p2: "\<And>x y. 0 \<le> x \<Longrightarrow> x < w \<Longrightarrow> 0 \<le> y \<Longrightarrow> y < h \<Longrightarrow>
               pixel_hmsb m2 w x y = (2 * x \<noteq> w - 1 \<and> pixel_hmsb m1 w (w - 1 - x) y)"
    by blast
  have ne: "2 * x \<noteq> w - 1" for x using assms(1) by presburger
  have pix: "pixel_hmsb m2 w x y = pixel_hmsb buf w x y"
    if "0 \<le> x" "x < w" "0 \<le> y" "y < h" for x y
  proof -
    have x': "0 \<le> w - 1 - x" "w - 1 - x < w" using that by auto
    have "pixel_hmsb m2 w x y = pixel_hmsb m1 w (w - 1 - x) y"
      using p2 [OF that] ne [of x] by blast
    also have "\<dots> = pixel_hmsb buf w (w - 1 - (w - 1 - x)) y"
      using p1 [OF x' that(3,4)] ne [of "w - 1 - x"] by blast
    finally show ?thesis by simp
  qed
  have l2: "length m2 = length buf" using m2(2) assms(4) by (simp add: wf_bitmap_def)
  have eq: "m2 = buf" if "wf_bitmap buf w h"
    by (rule bitmap_eqI [OF assms(2) m2(2) that]) (use pix in blast)
  have eq8: "m2 = buf" if "w mod 8 = 0"
    by (rule eq) (rule wf_bitmap_multiple_of_8 [OF assms(2) that assms(4)])
  show ?thesis using m1(1) m2(1) l2 pix eq eq8 by blast
qed

text \<open>
  The amended claim C7 on a bitmap 8 wide and 3 high.
\<close>

theorem mirror_horizontal_twice_witness:
  "even (8 :: int) \<and> wf_bitmap [1, 2, 3] 8 3 \<and>
   mirror_horizontal [1, 2, 3] 8 3 = Inr [128, 64, 192] \<and> mirror_horizontal [128, 64, 192] 8 3 = Inr [1, 2, 3]"
proof -
  have e: "mirror_horizontal [1, 2, 3] 8 3 = Inr [128, 64, 192]" by code_simp
  have wf: "wf_bitmap [1, 2, 3] 8 3"
    by (rule wf_bitmap_multiple_of_8) (simp_all add: get_byte_size_eq)
  from mirror_horizontal_twice [of 8 3 "[1, 2, 3]"]
  obtain m1 m2 where "mirror_horizontal [1, 2, 3] 8 3 = Inr m1" "mirror_horizontal m1 8 3 = Inr m2" "m2 = [1, 2, 3]"
    by (auto simp: get_byte_size_eq)
  with e wf show ?thesis by simp
qed

text \<open>
  Claim C4, as stated, at a concrete input: of the bitmap 1 wide and 1 high with the
  byte \<open>0xFF\<close>, one rotation by 90 degrees returns \<open>0x01\<close>, and every further rotation
  returns \<open>0x01\<close> again, so four rotations do not return \<open>0xFF\<close>: the bits past the width
  are not copied.
\<close>

theorem rotate_four_times_counterexample:
  "xform_buf [0xFF] 1 1 False 90 = Inr ([1], 1, 1) \<and> xform_buf [1] 1 1 False 90 = Inr ([1], 1, 1)"
  by code_simp

text \<open>
  Claim C4, amended: for a buffer of \<open>get_byte_size w * h\<close> bytes, four rotations by 90
  degrees in succession, each on the dimensions the one before returned, all return normally;
  the fourth returns the width \<open>w\<close>, the height \<open>h\<close> and a buffer of the same length
  that agrees with the original on every pixel \<open>(x, y)\<close> with \<open>0 \<le> x < w\<close> and
  \<open>0 \<le> y < h\<close>. It is the original buffer when the bits past the width are clear in it,
  in particular whenever \<open>w\<close> is a multiple of 8.
\<close>

theorem rotate_four_times:
  assumes "0 \<le> w" "0 \<le> h" "int (length buf) = get_byte_size w * h"
  shows "\<exists>b1 b2 b3 b4.
           xform_buf buf w h False 90 = Inr (b1, h, w) \<and>
           xform_buf b1 h w False 90 = Inr (b2, w, h) \<and>
           xform_buf b2 w h False 90 = Inr (b3, h, w) \<and>
           xform_buf b3 h w False 90 = Inr (b4, w, h) \<and>
           length b4 = length buf \<and>
           (\<forall>x y. 0 \<le> x \<and> x < w \<and> 0 \<le> y \<and> y < h \<longrightarrow> pixel_hmsb b4 w x y = pixel_hmsb buf w x y) \<and>
           (wf_bitmap buf w h \<longrightarrow> b4 = buf) \<and>
           (w mod 8 = 0 \<longrightarrow> b4 = buf)"
proof -
  have x90: "xform_buf b u v False 90 = (case rotate90 b u v of Inl e \<Rightarrow> Inl e | Inr b' \<Rightarrow> Inr (b', v, u))"
    for b u v by (simp add: xform_buf_def)
  have len: "get_byte_size w * h \<le> int (length buf)" using assms(3) by simp
  from rotate90_spec [OF assms(1,2) len]
  obtain b1 where b1: "rotate90 buf w h = Inr b1" "wf_bitmap b1 h w"
    and p1: "\<And>x y. 0 \<le> x \<Longrightarrow> x < h \<Longrightarrow> 0 \<le> y \<Longrightarrow> y < w \<Longrightarrow>
               pixel_hmsb b1 h x y = pixel_hmsb buf w y (h - 1 - x)"
    by blast
  have len1: "get_byte_size h * w \<le> int (length b1)" using b1(2) by (simp add: wf_bitmap_def)
  from rotate90_spec [OF assms(2,1) len1]
  obtain b2 where b2: "rotate90 b1 h w = Inr b2" "wf_bitmap b2 w h"
    and p2: "\<And>x y. 0 \<le> x \<Longrightarrow> x < w \<Longrightarrow> 0 \<le> y \<Longrightarrow> y < h \<Longrightarrow>
               pixel_hmsb b2 w x y = pixel_hmsb b1 h y (w - 1 - x)"
    by blast
  have len2: "get_byte_size w * h \<le> int (length b2)" using b2(2) by (simp add: wf_bitmap_def)
  from rotate90_spec [OF assms(1,2) len2]
  obtain b3 where b3: "rotate90 b2 w h = Inr b3" "wf_bitmap b3 h w"
    and p3: "\<And>x y. 0 \<le> x \<Longrightarrow> x < h \<Longrightarrow> 0 \<le> y \<Longrightarrow> y < w \<Longrightarrow>
               pixel_hmsb b3 h x y = pixel_hmsb b2 w y (h - 1 - x)"
    by blast
  have len3: "get_byte_size h * w \<le> int (length b3)" using b3(2) by (simp add: wf_bitmap_def)
  from rotate90_spec [OF assms(2,1) len3]
  obtain b4 where b4: "rotate90 b3 h w = Inr b4" "wf_bitmap b4 w h"
    and p4: "\<And>x y. 0 \<le> x \<Longrightarrow> x < w \<Longrightarrow> 0 \<le> y \<Longrightarrow> y < h \<Longrightarrow>
               pixel_hmsb b4 w x y = pixel_hmsb b3 h y (w - 1 - x)"
    by blast
  have pix: "pixel_hmsb b4 w x y = pixel_hmsb buf w x y"
    if xy: "0 \<le> x" "x < w" "0 \<le> y" "y < h" for x y
  proof -
    have x': "0 \<le> w - 1 - x" "w - 1 - x < w" and y': "0 \<le> h - 1 - y" "h - 1 - y < h"
      using xy by auto
    have "pixel_hmsb b4 w x y = pixel_hmsb b3 h y (w - 1 - x)" by (rule p4 [OF xy])
    also have "\<dots> = pixel_hmsb b2 w (w - 1 - x) (h - 1 - y)" by (rule p3 [OF xy(3,4) x'])
    also have "\<dots> = pixel_hmsb b1 h (h - 1 - y) (w - 1 - (w - 1 - x))" by (rule p2 [OF x' y'])
    also have "\<dots> = pixel_hmsb b1 h (h - 1 - y) x" by simp
    also have "\<dots> = pixel_hmsb buf w x (h - 1 - (h - 1 - y))" by (rule p1 [OF y' xy(1,2)])
    finally show ?thesis by simp
  qed
  have l4: "length b4 = length buf" using b4(2) assms(3) by (simp add: wf_bitmap_def)
  have eq: "b4 = buf" if "wf_bitmap buf w h"
    by (rule bitmap_eqI [OF assms(1) b4(2) that]) (use pix in blast)
  have eq8: "b4 = buf" if "w mod 8 = 0"
    by (rule eq) (rule wf_bitmap_multiple_of_8 [OF assms(1) that assms(3)])
  have "xform_buf buf w h False 90 = Inr (b1, h, w)" "xform_buf b1 h w False 90 = Inr (b2, w, h)"
    "xform_buf b2 w h False 90 = Inr (b3, h, w)" "xform_buf b3 h w False 90 = Inr (b4, w, h)"
    using b1(1) b2(1) b3(1) b4(1) by (simp_all add: x90)
  then show ?thesis using l4 pix eq eq8 by blast
qed

text \<open>
  The amended claim C4 on a bitmap 3 wide and 2 high whose padding is clear.
\<close>

theorem rotate_four_times_witness:
  "wf_bitmap [5, 3] 3 2 \<and>
   xform_buf [5, 3] 3 2 False 90 = Inr ([3, 1, 2], 2, 3) \<and>
   (\<exists>b2 b3. xform_buf [3, 1, 2] 2 3 False 90 = Inr (b2, 3, 2) \<and>
            xform_buf b2 3 2 False 90 = Inr (b3, 2, 3) \<and>
            xform_buf b3 2 3 False 90 = Inr ([5, 3], 3, 2))"
proof -
  have e: "xform_buf [5, 3] 3 2 False 90 = Inr ([3, 1, 2], 2, 3)" by code_simp
  have wf: "wf_bitmap [5, 3] 3 2"
    unfolding wf_bitmap_def
  proof (intro conjI allI impI)
    show "int (length [5, 3 :: byte]) = get_byte_size 3 * 2" by (simp add: get_byte_size_eq)
    fix i k assume i: "i < length [5, 3 :: byte]" and b: "bit ([5, 3 :: byte] ! i) k"
    have t: "(5 :: byte) = take_bit 3 5" "(3 :: byte) = take_bit 3 3" by simp_all
    have "i = 0 \<or> i = 1" using i by auto
    then have "bit (take_bit 3 (5 :: byte)) k \<or> bit (take_bit 3 (3 :: byte)) k"
      using b t by auto
    then have "k < 3" by (auto simp only: bit_take_bit_iff)
    then show "int i mod get_byte_size 3 * 8 + int k < 3" by (simp add: get_byte_size_eq)
  qed
  have "\<exists>b1 b2 b3 b4.
           xform_buf [5, 3] 3 2 False 90 = Inr (b1, 2, 3) \<and>
           xform_buf b1 2 3 False 90 = Inr (b2, 3, 2) \<and>
           xform_buf b2 3 2 False 90 = Inr (b3, 2, 3) \<and>
           xform_buf b3 2 3 False 90 = Inr (b4, 3, 2) \<and>
           length b4 = length [5, 3 :: byte] \<and>
           (\<forall>x y. 0 \<le> x \<and> x < 3 \<and> 0 \<le> y \<and> y < 2 \<longrightarrow> pixel_hmsb b4 3 x y = pixel_hmsb [5, 3] 3 x y) \<and>
           (wf_bitmap [5, 3] 3 2 \<longrightarrow> b4 = [5, 3]) \<and>
           ((3 :: int) mod 8 = 0 \<longrightarrow> b4 = [5, 3])"
    by (rule rotate_four_times) (simp_all add: get_byte_size_eq)
  then obtain b1 b2 b3 b4 where r: "xform_buf [5, 3] 3 2 False 90 = Inr (b1, 2, 3)"
    "xform_buf b1 2 3 False 90 = Inr (b2, 3, 2)" "xform_buf b2 3 2 False 90 = Inr (b3, 2, 3)"
    "xform_buf b3 2 3 False 90 = Inr (b4, 3, 2)" "wf_bitmap [5, 3] 3 2 \<longrightarrow> b4 = [5, 3]"
    by blast
  from r(5) wf have b4: "b4 = [5, 3]" by (rule mp)
  from r(1) have "Inr (b1, 2, 3) = (Inr ([3, 1, 2], 2, 3) :: error + byte list \<times> int \<times> int)"
    by (simp only: e)
  then have b1: "b1 = [3, 1, 2]" by (simp only: sum.inject prod.inject)
  have s2: "xform_buf [3, 1, 2] 2 3 False 90 = Inr (b2, 3, 2)" using r(2) by (simp only: b1)
  have s4: "xform_buf b3 2 3 False 90 = Inr ([5, 3], 3, 2)" using r(4) by (simp only: b4)
  have "\<exists>b2 b3. xform_buf [3, 1, 2] 2 3 False 90 = Inr (b2, 3, 2) \<and>
            xform_buf b2 3 2 False 90 = Inr (b3, 2, 3) \<and>
            xform_buf b3 2 3 False 90 = Inr ([5, 3], 3, 2)"
    by (intro exI conjI) (rule s2, rule r(3), rule s4)
  with e have "xform_buf [5, 3] 3 2 False 90 = Inr ([3, 1, 2], 2, 3) \<and>
   (\<exists>b2 b3. xform_buf [3, 1, 2] 2 3 False 90 = Inr (b2, 3, 2) \<and>
            xform_buf b2 3 2 False 90 = Inr (b3, 2, 3) \<and>
            xform_buf b3 2 3 False 90 = Inr ([5, 3], 3, 2))"
    by (rule conjI)
  with wf show ?thesis by (rule conjI)
qed


end
